theory Spec2Isabelle
  imports Main
begin

section \<open>The readers-writers coordinator of n3.cpp\<close>

text \<open>
  The class \<open>ReadersWriters\<close> is a monitor: every method holds the one mutex \<open>mtx\<close> from
  its first to its last statement, except inside \<open>cv.wait(lock, pred)\<close>, which is the loop
  \<open>while (!pred()) wait(lock)\<close> and gives the mutex up while the caller sleeps. The code
  between two such points therefore runs atomically, and the model has one HOL function per
  such segment: the part of \<open>start_read\<close> before its wait, the predicate of the wait, the
  part after the wait, and so on. The counters are C++ \<open>int\<close>; they are modelled as
  unbounded integers, which agrees with the code as long as fewer than \<open>2^31\<close> callers are
  inside the coordinator at once.
\<close>

datatype Priority = READERS | WRITERS | FAIR

record ReadersWriters =
  active_readers :: int
  waiting_readers :: int
  active_writers :: int
  waiting_writers :: int
  priority :: Priority
  writer_active :: bool
  request_queue :: "bool list"

text \<open>The constructor together with the default member initialisers.\<close>

definition ReadersWriters_new :: "Priority \<Rightarrow> ReadersWriters" where
  "ReadersWriters_new p =
     \<lparr>active_readers = 0, waiting_readers = 0, active_writers = 0, waiting_writers = 0,
      priority = p, writer_active = False, request_queue = []\<rparr>"

subsection \<open>The request queue\<close>

text \<open>
  \<open>std::queue<bool>\<close>, \<open>True\<close> for a writer and \<open>False\<close> for a reader; the front of the
  queue is the head of the list. \<open>pop\<close> on an empty queue is undefined behaviour in C++,
  which the model shows as \<open>None\<close>.
\<close>

definition queue_push :: "bool \<Rightarrow> bool list \<Rightarrow> bool list" where
  "queue_push x q = q @ [x]"

fun queue_pop :: "bool list \<Rightarrow> bool list option" where
  "queue_pop [] = None"
| "queue_pop (x # q) = Some q"

text \<open>\<open>!request_queue.empty() && request_queue.front() == b\<close>, with its short circuit.\<close>

fun front_is :: "bool \<Rightarrow> bool list \<Rightarrow> bool" where
  "front_is b [] = False"
| "front_is b (x # q) = (x = b)"

text \<open>The loop \<open>while (!request_queue.empty()) request_queue.pop()\<close> of \<open>set_priority\<close>.\<close>

fun drain :: "bool list \<Rightarrow> bool list" where
  "drain [] = []"
| "drain (x # q) = drain q"

subsection \<open>Condition variables\<close>

datatype cond_var = Cv_read | Cv_write

datatype notify = Notify_one cond_var | Notify_all cond_var

text \<open>
  A caller that waits is inside one of six \<open>wait\<close> calls: the one of \<open>start_read\<close> or of
  \<open>start_write\<close>, in the branch chosen by the value \<open>priority\<close> had when the method
  tested it. Each call has its own lambda; \<open>wait_pred\<close> lists them.
\<close>

datatype wait_site = In_start_read Priority | In_start_write Priority

fun wait_pred :: "wait_site \<Rightarrow> ReadersWriters \<Rightarrow> bool" where
  "wait_pred (In_start_read FAIR) s =
     (\<not> writer_active s \<and> front_is False (request_queue s))"
| "wait_pred (In_start_read READERS) s = (\<not> writer_active s)"
| "wait_pred (In_start_read WRITERS) s = (\<not> writer_active s \<and> waiting_writers s = 0)"
| "wait_pred (In_start_write FAIR) s =
     (\<not> writer_active s \<and> active_readers s = 0 \<and> front_is True (request_queue s))"
| "wait_pred (In_start_write READERS) s = (\<not> writer_active s \<and> active_readers s = 0)"
| "wait_pred (In_start_write WRITERS) s = (\<not> writer_active s \<and> active_readers s = 0)"

fun wait_cv :: "wait_site \<Rightarrow> cond_var" where
  "wait_cv (In_start_read b) = Cv_read"
| "wait_cv (In_start_write b) = Cv_write"

subsection \<open>The methods, segment by segment\<close>

text \<open>\<open>start_read\<close> from the lock to its wait; the wait it reaches is
  \<open>In_start_read (priority s)\<close>.\<close>

definition start_read_enter :: "ReadersWriters \<Rightarrow> ReadersWriters" where
  "start_read_enter s =
     (if priority s = FAIR then s\<lparr>request_queue := queue_push False (request_queue s)\<rparr>
      else s\<lparr>waiting_readers := waiting_readers s + 1\<rparr>)"

text \<open>\<open>start_read\<close> from the return of the wait in branch \<open>b\<close> to the end of the method.\<close>

definition start_read_leave :: "Priority \<Rightarrow> ReadersWriters \<Rightarrow> ReadersWriters option" where
  "start_read_leave b s =
     (if b = FAIR then
        (case queue_pop (request_queue s) of
           None \<Rightarrow> None
         | Some q \<Rightarrow> Some (s\<lparr>request_queue := q, active_readers := active_readers s + 1\<rparr>))
      else Some (s\<lparr>waiting_readers := waiting_readers s - 1,
                   active_readers := active_readers s + 1\<rparr>))"

definition end_read :: "ReadersWriters \<Rightarrow> notify list \<times> ReadersWriters" where
  "end_read s =
     (let s1 = s\<lparr>active_readers := active_readers s - 1\<rparr>;
          n1 = (if active_readers s1 = 0 then [Notify_one Cv_write] else []);
          n2 = (if priority s1 = FAIR \<and> request_queue s1 \<noteq> [] then
                  (if front_is True (request_queue s1) then [Notify_one Cv_write]
                   else [Notify_all Cv_read])
                else [])
      in (n1 @ n2, s1))"

definition start_write_enter :: "ReadersWriters \<Rightarrow> ReadersWriters" where
  "start_write_enter s =
     (if priority s = FAIR then s\<lparr>request_queue := queue_push True (request_queue s)\<rparr>
      else s\<lparr>waiting_writers := waiting_writers s + 1\<rparr>)"

definition start_write_leave :: "Priority \<Rightarrow> ReadersWriters \<Rightarrow> ReadersWriters option" where
  "start_write_leave b s =
     (let r = (if b = FAIR then
                 (case queue_pop (request_queue s) of
                    None \<Rightarrow> None
                  | Some q \<Rightarrow> Some (s\<lparr>request_queue := q\<rparr>))
               else Some (s\<lparr>waiting_writers := waiting_writers s - 1\<rparr>))
      in case r of
           None \<Rightarrow> None
         | Some s1 \<Rightarrow> Some (s1\<lparr>writer_active := True, active_writers := active_writers s1 + 1\<rparr>))"

definition end_write :: "ReadersWriters \<Rightarrow> notify list \<times> ReadersWriters" where
  "end_write s =
     (let s1 = s\<lparr>writer_active := False, active_writers := active_writers s - 1\<rparr>;
          n = (if priority s1 = READERS then
                 (if waiting_readers s1 > 0 then [Notify_all Cv_read]
                  else if waiting_writers s1 > 0 then [Notify_one Cv_write]
                  else [])
               else if priority s1 = WRITERS then
                 (if waiting_writers s1 > 0 then [Notify_one Cv_write]
                  else if waiting_readers s1 > 0 then [Notify_all Cv_read]
                  else [])
               else
                 (if request_queue s1 \<noteq> [] then
                    (if front_is True (request_queue s1) then [Notify_one Cv_write]
                     else [Notify_all Cv_read])
                  else []))
      in (n, s1))"

definition set_priority :: "Priority \<Rightarrow> ReadersWriters \<Rightarrow> notify list \<times> ReadersWriters" where
  "set_priority new_priority s =
     (let s1 = (if priority s = FAIR \<and> new_priority \<noteq> FAIR then
                  s\<lparr>request_queue := drain (request_queue s)\<rparr>
                else if new_priority = FAIR then
                  s\<lparr>request_queue := drain (request_queue s)\<rparr>
                else s)
      in ([Notify_all Cv_read, Notify_all Cv_write], s1\<lparr>priority := new_priority\<rparr>))"

text \<open>
  \<open>print_status\<close> writes one line to the console. The model keeps what the line shows, in
  the order the code appends it to the stream, one item per value; the fixed Russian
  captions between the values are left out.
\<close>

datatype status_item =
    Prefix string
  | Shown_active_readers int
  | Shown_waiting_readers int
  | Shown_active_writers int
  | Shown_writer_active bool
  | Shown_waiting_writers int
  | Shown_queue_size nat
  | Shown_priority Priority

definition print_status :: "string \<Rightarrow> ReadersWriters \<Rightarrow> status_item list \<times> ReadersWriters" where
  "print_status prefix s =
     ((if prefix \<noteq> [] then [Prefix prefix] else [])
      @ [Shown_active_readers (active_readers s),
         Shown_waiting_readers (waiting_readers s),
         Shown_active_writers (active_writers s),
         Shown_writer_active (writer_active s),
         Shown_waiting_writers (waiting_writers s)]
      @ (if priority s = FAIR then [Shown_queue_size (length (request_queue s))] else [])
      @ [Shown_priority (priority s)],
      s)"

subsection \<open>Callers\<close>

text \<open>
  The callers of the coordinator are numbered. A caller is outside the coordinator
  (\<open>Idle\<close>), asleep inside one of the waits, or between a start and the matching end.
  The protocol of the class (\<open>end_read\<close> only after the caller's own \<open>start_read\<close>,
  \<open>end_write\<close> only after its own \<open>start_write\<close>) is what \<open>step\<close> accepts; every other
  call is refused with \<open>None\<close>, and so is a step in which the code would pop the empty
  queue.

  \<open>Recheck t\<close> is caller \<open>t\<close> waking up inside its wait, taking the mutex and testing its
  lambda again. The model lets a sleeping caller do so at any moment: a C++ condition
  variable may wake a waiter without any notification, and every notification of the code
  only makes some sleeping callers do this step. A caller whose lambda is false goes back
  to sleep, so the additional steps change nothing.
\<close>

datatype pc = Idle | Blocked wait_site | Reading | Writing

record system =
  rw :: ReadersWriters
  pcs :: "nat \<Rightarrow> pc"

datatype call =
    Start_read nat
  | Start_write nat
  | Recheck nat
  | End_read nat
  | End_write nat
  | Set_priority Priority
  | Print_status string

definition system_new :: "Priority \<Rightarrow> system" where
  "system_new p = \<lparr>rw = ReadersWriters_new p, pcs = (\<lambda>t. Idle)\<rparr>"

fun leave :: "wait_site \<Rightarrow> ReadersWriters \<Rightarrow> ReadersWriters option" where
  "leave (In_start_read b) s = start_read_leave b s"
| "leave (In_start_write b) s = start_write_leave b s"

fun holding :: "wait_site \<Rightarrow> pc" where
  "holding (In_start_read b) = Reading"
| "holding (In_start_write b) = Writing"

text \<open>One pass of \<open>cv.wait(lock, pred)\<close> by caller \<open>t\<close>, who holds the mutex: test the
  lambda; go on to the end of the method if it holds, sleep otherwise.\<close>

definition wait :: "nat \<Rightarrow> wait_site \<Rightarrow> system \<Rightarrow> system option" where
  "wait t w \<sigma> =
     (if wait_pred w (rw \<sigma>) then
        (case leave w (rw \<sigma>) of
           None \<Rightarrow> None
         | Some s \<Rightarrow> Some \<lparr>rw = s, pcs = (pcs \<sigma>)(t := holding w)\<rparr>)
      else Some (\<sigma>\<lparr>pcs := (pcs \<sigma>)(t := Blocked w)\<rparr>))"

fun step :: "call \<Rightarrow> system \<Rightarrow> system option" where
  "step (Start_read t) \<sigma> =
     (if pcs \<sigma> t = Idle then
        wait t (In_start_read (priority (rw \<sigma>))) (\<sigma>\<lparr>rw := start_read_enter (rw \<sigma>)\<rparr>)
      else None)"
| "step (Start_write t) \<sigma> =
     (if pcs \<sigma> t = Idle then
        wait t (In_start_write (priority (rw \<sigma>))) (\<sigma>\<lparr>rw := start_write_enter (rw \<sigma>)\<rparr>)
      else None)"
| "step (Recheck t) \<sigma> =
     (case pcs \<sigma> t of Blocked w \<Rightarrow> wait t w \<sigma> | _ \<Rightarrow> None)"
| "step (End_read t) \<sigma> =
     (if pcs \<sigma> t = Reading then
        Some \<lparr>rw = snd (end_read (rw \<sigma>)), pcs = (pcs \<sigma>)(t := Idle)\<rparr>
      else None)"
| "step (End_write t) \<sigma> =
     (if pcs \<sigma> t = Writing then
        Some \<lparr>rw = snd (end_write (rw \<sigma>)), pcs = (pcs \<sigma>)(t := Idle)\<rparr>
      else None)"
| "step (Set_priority p) \<sigma> = Some (\<sigma>\<lparr>rw := snd (set_priority p (rw \<sigma>))\<rparr>)"
| "step (Print_status prefix) \<sigma> = Some (\<sigma>\<lparr>rw := snd (print_status prefix (rw \<sigma>))\<rparr>)"

fun run :: "call list \<Rightarrow> system \<Rightarrow> system option" where
  "run [] \<sigma> = Some \<sigma>"
| "run (c # cs) \<sigma> = (case step c \<sigma> of None \<Rightarrow> None | Some \<sigma>' \<Rightarrow> run cs \<sigma>')"

subsection \<open>Runs and what they record\<close>

text \<open>The callers found at a given point, and the callers inside the coordinator.\<close>

definition callers_at :: "(nat \<Rightarrow> pc) \<Rightarrow> pc \<Rightarrow> nat set" where
  "callers_at f v = {t. f t = v}"

definition inside :: "(nat \<Rightarrow> pc) \<Rightarrow> nat set" where
  "inside f = {t. f t \<noteq> Idle}"

text \<open>
  The invariant behind mutual exclusion: the two \<open>active\<close> counters count the callers
  that hold the resource, at most one of them writes, and nobody reads while one writes.
\<close>

definition coherent :: "system \<Rightarrow> bool" where
  "coherent \<sigma> \<longleftrightarrow>
     finite (inside (pcs \<sigma>))
   \<and> active_readers (rw \<sigma>) = int (card (callers_at (pcs \<sigma>) Reading))
   \<and> active_writers (rw \<sigma>) = int (card (callers_at (pcs \<sigma>) Writing))
   \<and> (writer_active (rw \<sigma>) \<longleftrightarrow> card (callers_at (pcs \<sigma>) Writing) = 1)
   \<and> card (callers_at (pcs \<sigma>) Writing) \<le> 1
   \<and> (writer_active (rw \<sigma>) \<longrightarrow> card (callers_at (pcs \<sigma>) Reading) = 0)"

text \<open>
  A run in which every \<open>start_read\<close> and \<open>start_write\<close> found the policy FAIR when it
  tested it. Policy switches may occur in between.
\<close>

fun acquire_under_fair :: "call \<Rightarrow> system \<Rightarrow> bool" where
  "acquire_under_fair (Start_read t) \<sigma> = (priority (rw \<sigma>) = FAIR)"
| "acquire_under_fair (Start_write t) \<sigma> = (priority (rw \<sigma>) = FAIR)"
| "acquire_under_fair c \<sigma> = True"

fun acquires_under_fair :: "call list \<Rightarrow> system \<Rightarrow> bool" where
  "acquires_under_fair [] \<sigma> = True"
| "acquires_under_fair (c # cs) \<sigma> =
     (acquire_under_fair c \<sigma> \<and>
      (case step c \<sigma> of None \<Rightarrow> True | Some \<sigma>' \<Rightarrow> acquires_under_fair cs \<sigma>'))"

text \<open>The two waits of the FAIR branches.\<close>

definition fair_site :: "wait_site \<Rightarrow> bool" where
  "fair_site w \<longleftrightarrow> w = In_start_read FAIR \<or> w = In_start_write FAIR"

text \<open>The invariant of such runs: nobody is counted as waiting, and whoever sleeps does so
  in a FAIR branch.\<close>

definition no_counted_waiter :: "system \<Rightarrow> bool" where
  "no_counted_waiter \<sigma> \<longleftrightarrow>
     waiting_readers (rw \<sigma>) = 0 \<and> waiting_writers (rw \<sigma>) = 0
   \<and> (\<forall>t w. pcs \<sigma> t = Blocked w \<longrightarrow> fair_site w)"

text \<open>
  What a step records for the FAIR queue: the ticket a call pushes, with the caller that
  pushed it, and the caller a call lets through, with its kind (\<open>True\<close> for a writer).
\<close>

fun enqueued :: "call \<Rightarrow> system \<Rightarrow> (nat \<times> bool) list" where
  "enqueued (Start_read t) \<sigma> =
     (if pcs \<sigma> t = Idle \<and> priority (rw \<sigma>) = FAIR then [(t, False)] else [])"
| "enqueued (Start_write t) \<sigma> =
     (if pcs \<sigma> t = Idle \<and> priority (rw \<sigma>) = FAIR then [(t, True)] else [])"
| "enqueued c \<sigma> = []"

fun acquirer :: "call \<Rightarrow> nat option" where
  "acquirer (Start_read t) = Some t"
| "acquirer (Start_write t) = Some t"
| "acquirer (Recheck t) = Some t"
| "acquirer c = None"

definition granted :: "call \<Rightarrow> system \<Rightarrow> (nat \<times> bool) list" where
  "granted c \<sigma> =
     (case acquirer c of
        None \<Rightarrow> []
      | Some t \<Rightarrow>
          (case step c \<sigma> of
             None \<Rightarrow> []
           | Some \<sigma>' \<Rightarrow>
               if pcs \<sigma>' t = Reading then [(t, False)]
               else if pcs \<sigma>' t = Writing then [(t, True)]
               else []))"

fun enqueued_along :: "call list \<Rightarrow> system \<Rightarrow> (nat \<times> bool) list" where
  "enqueued_along [] \<sigma> = []"
| "enqueued_along (c # cs) \<sigma> =
     enqueued c \<sigma> @ (case step c \<sigma> of None \<Rightarrow> [] | Some \<sigma>' \<Rightarrow> enqueued_along cs \<sigma>')"

fun granted_along :: "call list \<Rightarrow> system \<Rightarrow> (nat \<times> bool) list" where
  "granted_along [] \<sigma> = []"
| "granted_along (c # cs) \<sigma> =
     granted c \<sigma> @ (case step c \<sigma> of None \<Rightarrow> [] | Some \<sigma>' \<Rightarrow> granted_along cs \<sigma>')"

text \<open>Kinds of calls, and what a run leaves behind for one caller or for the fields.\<close>

fun is_switch :: "call \<Rightarrow> bool" where
  "is_switch (Set_priority p) = True"
| "is_switch c = False"

fun is_recheck :: "call \<Rightarrow> bool" where
  "is_recheck (Recheck t) = True"
| "is_recheck c = False"

definition pc_after :: "call list \<Rightarrow> system \<Rightarrow> nat \<Rightarrow> pc option" where
  "pc_after cs \<sigma> t = (case run cs \<sigma> of None \<Rightarrow> None | Some \<sigma>' \<Rightarrow> Some (pcs \<sigma>' t))"

definition rw_after :: "call list \<Rightarrow> system \<Rightarrow> ReadersWriters option" where
  "rw_after cs \<sigma> = (case run cs \<sigma> of None \<Rightarrow> None | Some \<sigma>' \<Rightarrow> Some (rw \<sigma>'))"

text \<open>The policy is FAIR and whoever sleeps does so in a FAIR branch.\<close>

definition all_fair :: "system \<Rightarrow> bool" where
  "all_fair \<sigma> \<longleftrightarrow>
     priority (rw \<sigma>) = FAIR \<and> (\<forall>t w. pcs \<sigma> t = Blocked w \<longrightarrow> fair_site w)"

text \<open>The ticket a waiting caller pushed.\<close>

fun ticket :: "wait_site \<Rightarrow> bool" where
  "ticket (In_start_read b) = False"
| "ticket (In_start_write b) = True"

text \<open>While a reader holds the resource and a writer ticket is at the head, waking up
  changes nothing.\<close>

definition writer_ticket_behind_reader :: "system \<Rightarrow> bool" where
  "writer_ticket_behind_reader \<sigma> \<longleftrightarrow>
     all_fair \<sigma> \<and> active_readers (rw \<sigma>) > 0 \<and> front_is True (request_queue (rw \<sigma>))"

text \<open>A reader that sleeps behind a writer ticket, or while a writer is active, stays
  asleep whatever wake-ups occur.\<close>

definition reader_behind_writer :: "nat \<Rightarrow> system \<Rightarrow> bool" where
  "reader_behind_writer t \<sigma> \<longleftrightarrow>
     all_fair \<sigma> \<and> pcs \<sigma> t = Blocked (In_start_read FAIR)
   \<and> (writer_active (rw \<sigma>) \<or> front_is True (request_queue (rw \<sigma>)))"

text \<open>The submissions R1, W1, R2 of the example, made by callers 1, 2 and 3.\<close>

definition submissions :: "call list" where
  "submissions = [Start_read 1, Start_write 2, Start_read 3]"

text \<open>
  The scenario of a policy switch under a sleeping reader: a writer holds the resource
  under FAIR, caller 1 asks to read and sleeps, the policy becomes READERS, the writer
  leaves.
\<close>

definition switch_scenario :: "call list" where
  "switch_scenario = [Start_write 0, Start_read 1, Set_priority READERS, End_write 0]"

text \<open>The callers asleep in the two branches of \<open>start_write\<close> that count themselves in
  \<open>waiting_writers\<close>, and the invariant that the counter is their number.\<close>

definition counted_writers :: "(nat \<Rightarrow> pc) \<Rightarrow> int" where
  "counted_writers f =
     int (card (callers_at f (Blocked (In_start_write READERS))))
     + int (card (callers_at f (Blocked (In_start_write WRITERS))))"

definition writers_counted :: "system \<Rightarrow> bool" where
  "writers_counted \<sigma> \<longleftrightarrow>
     finite (inside (pcs \<sigma>)) \<and> waiting_writers (rw \<sigma>) = counted_writers (pcs \<sigma>)"

text \<open>Caller \<open>t\<close> sleeps in the FAIR branch of \<open>start_read\<close>, the policy is no longer
  FAIR and the queue is empty.\<close>

definition stranded :: "nat \<Rightarrow> system \<Rightarrow> bool" where
  "stranded t \<sigma> \<longleftrightarrow>
     priority (rw \<sigma>) \<noteq> FAIR \<and> request_queue (rw \<sigma>) = []
   \<and> pcs \<sigma> t = Blocked (In_start_read FAIR)"

text \<open>The policy is WRITERS and whoever sleeps does so in a WRITERS branch.\<close>

definition writers_site :: "wait_site \<Rightarrow> bool" where
  "writers_site w \<longleftrightarrow> w = In_start_read WRITERS \<or> w = In_start_write WRITERS"

definition writers_only :: "system \<Rightarrow> bool" where
  "writers_only \<sigma> \<longleftrightarrow>
     priority (rw \<sigma>) = WRITERS \<and> (\<forall>t w. pcs \<sigma> t = Blocked w \<longrightarrow> writers_site w)"

section \<open>Properties of single methods\<close>

text \<open>The equations that evaluate a run on concrete calls.\<close>

lemmas run_eval =
  system_new_def ReadersWriters_new_def wait_def queue_push_def
  start_read_enter_def start_read_leave_def end_read_def
  start_write_enter_def start_write_leave_def end_write_def
  set_priority_def print_status_def Let_def

text \<open>A run of two parts is the run of the second part from where the first ends.\<close>

lemma run_append:
  "run (cs @ ds) \<sigma> = (case run cs \<sigma> of None \<Rightarrow> None | Some \<sigma>' \<Rightarrow> run ds \<sigma>')"
  by (induction cs arbitrary: \<sigma>) (auto split: option.splits)

text \<open>
  A caller that passes a wait of a FAIR branch finds a ticket to pop, so the code never
  pops the empty queue, and a step is refused only when the call is against the protocol.
\<close>

lemma leave_defined: "wait_pred w s \<Longrightarrow> \<exists>s'. leave w s = Some s'"
proof (cases w)
  case (In_start_read b)
  assume "wait_pred w s"
  with In_start_read show ?thesis
    by (cases b; cases "request_queue s") (auto simp: start_read_leave_def)
next
  case (In_start_write b)
  assume "wait_pred w s"
  with In_start_write show ?thesis
    by (cases b; cases "request_queue s") (auto simp: start_write_leave_def)
qed

lemma wait_defined: "\<exists>\<sigma>'. wait t w \<sigma> = Some \<sigma>'"
proof (cases "wait_pred w (rw \<sigma>)")
  case True
  from leave_defined[OF True] obtain s where "leave w (rw \<sigma>) = Some s" by blast
  with True show ?thesis by (simp add: wait_def)
next
  case False
  then show ?thesis by (simp add: wait_def)
qed

lemma step_refused:
  "step c \<sigma> = None \<longleftrightarrow>
     (case c of
        Start_read t \<Rightarrow> pcs \<sigma> t \<noteq> Idle
      | Start_write t \<Rightarrow> pcs \<sigma> t \<noteq> Idle
      | Recheck t \<Rightarrow> (\<forall>w. pcs \<sigma> t \<noteq> Blocked w)
      | End_read t \<Rightarrow> pcs \<sigma> t \<noteq> Reading
      | End_write t \<Rightarrow> pcs \<sigma> t \<noteq> Writing
      | Set_priority p \<Rightarrow> False
      | Print_status prefix \<Rightarrow> False)"
proof (cases c)
  case (Start_read t)
  then show ?thesis
    using wait_defined[of t "In_start_read (priority (rw \<sigma>))" "\<sigma>\<lparr>rw := start_read_enter (rw \<sigma>)\<rparr>"]
    by auto
next
  case (Start_write t)
  then show ?thesis
    using wait_defined[of t "In_start_write (priority (rw \<sigma>))" "\<sigma>\<lparr>rw := start_write_enter (rw \<sigma>)\<rparr>"]
    by auto
next
  case (Recheck t)
  then show ?thesis
    using wait_defined[of t _ \<sigma>] by (cases "pcs \<sigma> t") auto
qed auto

lemma drain_Nil: "drain q = []"
  by (induction q) simp_all

text \<open>
  C8. \<open>set_priority\<close> empties the request queue exactly when the new policy is FAIR, or
  the old one was FAIR and the new one is not; otherwise the queue stays as it was. It
  then stores the new policy. The four counters and \<open>writer_active\<close> keep their values.
  The method contains no wait: as a step of the system it is accepted in every state, and
  no caller's position changes.
\<close>

theorem set_priority_effect:
  "request_queue (snd (set_priority p s)) =
     (if p = FAIR \<or> (priority s = FAIR \<and> p \<noteq> FAIR) then [] else request_queue s)
   \<and> priority (snd (set_priority p s)) = p
   \<and> active_readers (snd (set_priority p s)) = active_readers s
   \<and> waiting_readers (snd (set_priority p s)) = waiting_readers s
   \<and> active_writers (snd (set_priority p s)) = active_writers s
   \<and> waiting_writers (snd (set_priority p s)) = waiting_writers s
   \<and> writer_active (snd (set_priority p s)) = writer_active s
   \<and> (\<exists>\<sigma>'. step (Set_priority p) \<sigma> = Some \<sigma>' \<and> pcs \<sigma>' = pcs \<sigma>)"
  by (simp add: set_priority_def drain_Nil)

theorem set_priority_effect_witness:
  "request_queue (snd (set_priority READERS
       \<lparr>active_readers = 2, waiting_readers = 0, active_writers = 0, waiting_writers = 0,
        priority = FAIR, writer_active = False, request_queue = [True, False]\<rparr>)) = []
   \<and> request_queue (snd (set_priority WRITERS
       \<lparr>active_readers = 2, waiting_readers = 0, active_writers = 0, waiting_writers = 0,
        priority = READERS, writer_active = False, request_queue = [True, False]\<rparr>))
       = [True, False]"
  using set_priority_effect [of READERS
      "\<lparr>active_readers = 2, waiting_readers = 0, active_writers = 0, waiting_writers = 0,
        priority = FAIR, writer_active = False, request_queue = [True, False]\<rparr>"
      "system_new FAIR"]
    set_priority_effect [of WRITERS
      "\<lparr>active_readers = 2, waiting_readers = 0, active_writers = 0, waiting_writers = 0,
        priority = READERS, writer_active = False, request_queue = [True, False]\<rparr>"
      "system_new FAIR"]
  by simp

text \<open>
  C9. \<open>print_status\<close> returns the coordinator exactly as it found it, every field
  included, so a second call right after the first shows the same values; as a step of the
  system it leaves the whole state as it is.
\<close>

theorem print_status_frame:
  "snd (print_status prefix s) = s
   \<and> fst (print_status prefix (snd (print_status prefix s))) = fst (print_status prefix s)
   \<and> step (Print_status prefix) \<sigma> = Some \<sigma>"
  by (simp add: print_status_def)

text \<open>
  C7. \<open>end_write\<close> clears \<open>writer_active\<close> and takes one off \<open>active_writers\<close>. Under
  READERS it then notifies all of \<open>cv_read\<close> when \<open>waiting_readers\<close> is positive, and
  otherwise one waiter of \<open>cv_write\<close>, provided \<open>waiting_writers\<close> is positive. Under
  WRITERS it notifies one waiter of \<open>cv_write\<close> when \<open>waiting_writers\<close> is positive, and
  otherwise all of \<open>cv_read\<close>, provided \<open>waiting_readers\<close> is positive. Under FAIR it
  looks at the head of the queue: one waiter of \<open>cv_write\<close> for a writer ticket, all of
  \<open>cv_read\<close> for a reader ticket, nobody when the queue is empty.
\<close>

theorem end_write_wakes:
  "writer_active (snd (end_write s)) = False
   \<and> active_writers (snd (end_write s)) = active_writers s - 1
   \<and> (priority s = READERS \<longrightarrow>
        fst (end_write s) =
          (if waiting_readers s > 0 then [Notify_all Cv_read]
           else if waiting_writers s > 0 then [Notify_one Cv_write] else []))
   \<and> (priority s = WRITERS \<longrightarrow>
        fst (end_write s) =
          (if waiting_writers s > 0 then [Notify_one Cv_write]
           else if waiting_readers s > 0 then [Notify_all Cv_read] else []))
   \<and> (priority s = FAIR \<longrightarrow>
        fst (end_write s) =
          (case request_queue s of
             [] \<Rightarrow> []
           | x # q \<Rightarrow> if x then [Notify_one Cv_write] else [Notify_all Cv_read]))"
  by (cases "priority s") (auto simp: end_write_def Let_def split: list.splits)

theorem end_write_wakes_witness:
  "fst (end_write \<lparr>active_readers = 0, waiting_readers = 2, active_writers = 1,
        waiting_writers = 1, priority = READERS, writer_active = True,
        request_queue = []\<rparr>) = [Notify_all Cv_read]
   \<and> fst (end_write \<lparr>active_readers = 0, waiting_readers = 2, active_writers = 1,
        waiting_writers = 1, priority = WRITERS, writer_active = True,
        request_queue = []\<rparr>) = [Notify_one Cv_write]
   \<and> fst (end_write \<lparr>active_readers = 0, waiting_readers = 0, active_writers = 1,
        waiting_writers = 0, priority = FAIR, writer_active = True,
        request_queue = [False, True]\<rparr>) = [Notify_all Cv_read]"
  using end_write_wakes [of "\<lparr>active_readers = 0, waiting_readers = 2, active_writers = 1,
        waiting_writers = 1, priority = READERS, writer_active = True,
        request_queue = []\<rparr>"]
    end_write_wakes [of "\<lparr>active_readers = 0, waiting_readers = 2, active_writers = 1,
        waiting_writers = 1, priority = WRITERS, writer_active = True,
        request_queue = []\<rparr>"]
    end_write_wakes [of "\<lparr>active_readers = 0, waiting_readers = 0, active_writers = 1,
        waiting_writers = 0, priority = FAIR, writer_active = True,
        request_queue = [False, True]\<rparr>"]
  by simp

section \<open>Mutual exclusion\<close>

lemma finite_upd: "finite (inside f) \<Longrightarrow> finite (inside (f(t := x)))"
proof -
  assume fin: "finite (inside f)"
  have "inside (f(t := x)) \<subseteq> insert t (inside f)"
    by (auto simp: inside_def)
  then show ?thesis using fin by (meson finite_insert finite_subset)
qed

lemma finite_at: "finite (inside f) \<Longrightarrow> v \<noteq> Idle \<Longrightarrow> finite (callers_at f v)"
  by (erule rev_finite_subset) (auto simp: inside_def callers_at_def)

lemma card_enter:
  assumes "finite (inside f)" "v \<noteq> Idle" "f t \<noteq> v"
  shows "card (callers_at (f(t := v)) v) = Suc (card (callers_at f v))"
proof -
  have "callers_at (f(t := v)) v = insert t (callers_at f v)"
    by (auto simp: callers_at_def)
  moreover have "t \<notin> callers_at f v" using assms(3) by (simp add: callers_at_def)
  ultimately show ?thesis using finite_at[OF assms(1,2)] by simp
qed

lemma card_exit:
  assumes "finite (inside f)" "v \<noteq> Idle" "f t = v" "x \<noteq> v"
  shows "Suc (card (callers_at (f(t := x)) v)) = card (callers_at f v)"
proof -
  have "callers_at (f(t := x)) v = callers_at f v - {t}"
    using assms(4) by (auto simp: callers_at_def)
  moreover have "t \<in> callers_at f v" using assms(3) by (simp add: callers_at_def)
  ultimately show ?thesis using finite_at[OF assms(1,2)]
    by (metis card_Suc_Diff1)
qed

lemma card_other:
  assumes "f t \<noteq> v" "x \<noteq> v"
  shows "card (callers_at (f(t := x)) v) = card (callers_at f v)"
proof -
  have "callers_at (f(t := x)) v = callers_at f v"
    using assms by (auto simp: callers_at_def)
  then show ?thesis by simp
qed

lemma coherent_new: "coherent (system_new p)"
  by (simp add: coherent_def system_new_def ReadersWriters_new_def inside_def callers_at_def)

lemma wait_pred_no_writer: "wait_pred w s \<Longrightarrow> \<not> writer_active s"
  by (cases "(w, s)" rule: wait_pred.cases) simp_all

lemma wait_pred_write_no_reader: "wait_pred (In_start_write b) s \<Longrightarrow> active_readers s = 0"
  by (cases b) simp_all

lemma coherent_wait:
  assumes coh: "coherent \<sigma>" and w: "wait t w \<sigma> = Some \<sigma>'"
    and pc: "pcs \<sigma> t = Idle \<or> (\<exists>w'. pcs \<sigma> t = Blocked w')"
  shows "coherent \<sigma>'"
proof (cases "wait_pred w (rw \<sigma>)")
  case False
  then have eq: "\<sigma>' = \<sigma>\<lparr>pcs := (pcs \<sigma>)(t := Blocked w)\<rparr>"
    using w by (simp add: wait_def)
  have "card (callers_at ((pcs \<sigma>)(t := Blocked w)) Reading) = card (callers_at (pcs \<sigma>) Reading)"
    using pc by (intro card_other) auto
  moreover have "card (callers_at ((pcs \<sigma>)(t := Blocked w)) Writing) = card (callers_at (pcs \<sigma>) Writing)"
    using pc by (intro card_other) auto
  ultimately show ?thesis using coh eq
    by (simp add: coherent_def finite_upd)
next
  case True
  note nw = wait_pred_no_writer[OF True]
  from coh have fin: "finite (inside (pcs \<sigma>))" by (simp add: coherent_def)
  show ?thesis
  proof (cases w)
    case (In_start_read b)
    from True w In_start_read obtain s where
      lv: "start_read_leave b (rw \<sigma>) = Some s" and
      eq: "\<sigma>' = \<lparr>rw = s, pcs = (pcs \<sigma>)(t := Reading)\<rparr>"
      by (auto simp: wait_def split: option.splits)
    from lv have s: "active_readers s = active_readers (rw \<sigma>) + 1"
      "active_writers s = active_writers (rw \<sigma>)" "writer_active s = writer_active (rw \<sigma>)"
      by (auto simp: start_read_leave_def split: if_splits option.splits)
    have "card (callers_at ((pcs \<sigma>)(t := Reading)) Reading) = Suc (card (callers_at (pcs \<sigma>) Reading))"
      using pc fin by (intro card_enter) auto
    moreover have "card (callers_at ((pcs \<sigma>)(t := Reading)) Writing) = card (callers_at (pcs \<sigma>) Writing)"
      using pc by (intro card_other) auto
    ultimately show ?thesis using coh eq s nw
      by (simp add: coherent_def finite_upd)
  next
    case (In_start_write b)
    from True In_start_write have nr: "active_readers (rw \<sigma>) = 0"
      by (simp add: wait_pred_write_no_reader)
    from True w In_start_write obtain s where
      lv: "start_write_leave b (rw \<sigma>) = Some s" and
      eq: "\<sigma>' = \<lparr>rw = s, pcs = (pcs \<sigma>)(t := Writing)\<rparr>"
      by (auto simp: wait_def split: option.splits)
    from lv have s: "active_readers s = active_readers (rw \<sigma>)"
      "active_writers s = active_writers (rw \<sigma>) + 1" "writer_active s"
      by (auto simp: start_write_leave_def Let_def split: if_splits option.splits)
    have "card (callers_at ((pcs \<sigma>)(t := Writing)) Writing) = Suc (card (callers_at (pcs \<sigma>) Writing))"
      using pc fin by (intro card_enter) auto
    moreover have "card (callers_at ((pcs \<sigma>)(t := Writing)) Reading) = card (callers_at (pcs \<sigma>) Reading)"
      using pc by (intro card_other) auto
    ultimately show ?thesis using coh eq s nw nr
      by (auto simp: coherent_def finite_upd)
  qed
qed

lemma coherent_rw_update:
  assumes "coherent \<sigma>" "active_readers s = active_readers (rw \<sigma>)"
    "active_writers s = active_writers (rw \<sigma>)" "writer_active s = writer_active (rw \<sigma>)"
  shows "coherent (\<sigma>\<lparr>rw := s\<rparr>)"
  using assms by (simp add: coherent_def)

lemma coherent_step:
  assumes coh: "coherent \<sigma>" and st: "step c \<sigma> = Some \<sigma>'"
  shows "coherent \<sigma>'"
proof (cases c)
  case (Start_read t)
  with st have idle: "pcs \<sigma> t = Idle"
    and w: "wait t (In_start_read (priority (rw \<sigma>))) (\<sigma>\<lparr>rw := start_read_enter (rw \<sigma>)\<rparr>) = Some \<sigma>'"
    by (auto split: if_splits)
  have "coherent (\<sigma>\<lparr>rw := start_read_enter (rw \<sigma>)\<rparr>)"
    using coh by (intro coherent_rw_update) (simp_all add: start_read_enter_def)
  then show ?thesis by (rule coherent_wait[OF _ w]) (simp add: idle)
next
  case (Start_write t)
  with st have idle: "pcs \<sigma> t = Idle"
    and w: "wait t (In_start_write (priority (rw \<sigma>))) (\<sigma>\<lparr>rw := start_write_enter (rw \<sigma>)\<rparr>) = Some \<sigma>'"
    by (auto split: if_splits)
  have "coherent (\<sigma>\<lparr>rw := start_write_enter (rw \<sigma>)\<rparr>)"
    using coh by (intro coherent_rw_update) (simp_all add: start_write_enter_def)
  then show ?thesis by (rule coherent_wait[OF _ w]) (simp add: idle)
next
  case (Recheck t)
  with st obtain w where "pcs \<sigma> t = Blocked w" and "wait t w \<sigma> = Some \<sigma>'"
    by (auto split: pc.splits)
  then show ?thesis using coh coherent_wait by blast
next
  case (End_read t)
  with st have rd: "pcs \<sigma> t = Reading"
    and eq: "\<sigma>' = \<lparr>rw = snd (end_read (rw \<sigma>)), pcs = (pcs \<sigma>)(t := Idle)\<rparr>"
    by (auto split: if_splits)
  from coh have fin: "finite (inside (pcs \<sigma>))" by (simp add: coherent_def)
  have c1: "Suc (card (callers_at ((pcs \<sigma>)(t := Idle)) Reading)) = card (callers_at (pcs \<sigma>) Reading)"
    using rd fin by (intro card_exit) auto
  have c2: "card (callers_at ((pcs \<sigma>)(t := Idle)) Writing) = card (callers_at (pcs \<sigma>) Writing)"
    using rd by (intro card_other) auto
  from c1 coh have nw: "\<not> writer_active (rw \<sigma>)" by (auto simp: coherent_def)
  show ?thesis using coh eq c1 c2 nw
    by (auto simp: coherent_def finite_upd end_read_def Let_def)
next
  case (End_write t)
  with st have wr: "pcs \<sigma> t = Writing"
    and eq: "\<sigma>' = \<lparr>rw = snd (end_write (rw \<sigma>)), pcs = (pcs \<sigma>)(t := Idle)\<rparr>"
    by (auto split: if_splits)
  from coh have fin: "finite (inside (pcs \<sigma>))" by (simp add: coherent_def)
  have c1: "Suc (card (callers_at ((pcs \<sigma>)(t := Idle)) Writing)) = card (callers_at (pcs \<sigma>) Writing)"
    using wr fin by (intro card_exit) auto
  have c2: "card (callers_at ((pcs \<sigma>)(t := Idle)) Reading) = card (callers_at (pcs \<sigma>) Reading)"
    using wr by (intro card_other) auto
  from c1 coh have one: "card (callers_at (pcs \<sigma>) Writing) = 1" by (auto simp: coherent_def)
  show ?thesis using coh eq c1 c2 one
    by (auto simp: coherent_def finite_upd end_write_def Let_def)
next
  case (Set_priority p)
  with st have eq: "\<sigma>' = \<sigma>\<lparr>rw := snd (set_priority p (rw \<sigma>))\<rparr>" by auto
  show ?thesis unfolding eq using coh
    by (intro coherent_rw_update) (simp_all add: set_priority_def)
next
  case (Print_status prefix)
  with st show ?thesis using coh by (simp add: print_status_def)
qed

lemma coherent_run: "coherent \<sigma> \<Longrightarrow> run cs \<sigma> = Some \<sigma>' \<Longrightarrow> coherent \<sigma>'"
proof (induction cs arbitrary: \<sigma>)
  case Nil
  then show ?case by simp
next
  case (Cons c cs)
  then show ?case by (auto split: option.splits dest: coherent_step)
qed

text \<open>
  C1. Start from a new coordinator with any policy and let the callers make any sequence
  of calls that the protocol allows (policy switches and status calls included). In the
  state reached, it is not the case that \<open>active_writers\<close> is 1 while \<open>active_readers\<close>
  is positive.
\<close>

theorem mutual_exclusion:
  "run cs (system_new p) = Some \<sigma> \<Longrightarrow>
     \<not> (active_writers (rw \<sigma>) = 1 \<and> active_readers (rw \<sigma>) > 0)"
  using coherent_run[OF coherent_new, of cs p \<sigma>] by (auto simp: coherent_def)

theorem mutual_exclusion_witness:
  "\<exists>\<sigma>. run [Start_read 1, Start_write 2, Start_read 3, End_read 1, Recheck 2]
          (system_new FAIR) = Some \<sigma>
     \<and> active_writers (rw \<sigma>) = 1 \<and> active_readers (rw \<sigma>) = 0
     \<and> \<not> (active_writers (rw \<sigma>) = 1 \<and> active_readers (rw \<sigma>) > 0)"
proof -
  obtain \<sigma> where r: "run [Start_read 1, Start_write 2, Start_read 3, End_read 1, Recheck 2]
      (system_new FAIR) = Some \<sigma>"
    and v: "active_writers (rw \<sigma>) = 1" "active_readers (rw \<sigma>) = 0"
    by (simp add: run_eval)
  from mutual_exclusion [OF r] r v show ?thesis by blast
qed

text \<open>
  C2. In every state reached in that way \<open>active_writers\<close> is 0 or 1, and
  \<open>writer_active\<close> is true exactly when \<open>active_writers\<close> is 1.
\<close>

theorem single_writer:
  "run cs (system_new p) = Some \<sigma> \<Longrightarrow>
     (active_writers (rw \<sigma>) = 0 \<or> active_writers (rw \<sigma>) = 1)
     \<and> (writer_active (rw \<sigma>) \<longleftrightarrow> active_writers (rw \<sigma>) = 1)"
  using coherent_run[OF coherent_new, of cs p \<sigma>] by (auto simp: coherent_def)

theorem single_writer_witness:
  "\<exists>\<sigma>. run [Start_write 1, Start_write 2, Start_read 3, End_write 1, Recheck 2, Recheck 3]
          (system_new WRITERS) = Some \<sigma>
     \<and> active_writers (rw \<sigma>) = 1 \<and> writer_active (rw \<sigma>)
     \<and> (active_writers (rw \<sigma>) = 0 \<or> active_writers (rw \<sigma>) = 1)
     \<and> (writer_active (rw \<sigma>) \<longleftrightarrow> active_writers (rw \<sigma>) = 1)"
proof -
  obtain \<sigma> where
    r: "run [Start_write 1, Start_write 2, Start_read 3, End_write 1, Recheck 2, Recheck 3]
      (system_new WRITERS) = Some \<sigma>"
    and v: "active_writers (rw \<sigma>) = 1" "writer_active (rw \<sigma>)"
    by (simp add: run_eval)
  from single_writer [OF r] r v show ?thesis by blast
qed

section \<open>The waiting counters under FAIR\<close>

lemma leave_fair_waiting:
  "fair_site w \<Longrightarrow> leave w s = Some s' \<Longrightarrow>
     waiting_readers s' = waiting_readers s \<and> waiting_writers s' = waiting_writers s"
  by (auto simp: fair_site_def start_read_leave_def start_write_leave_def Let_def
      split: option.splits)

lemma no_counted_waiter_wait:
  assumes "no_counted_waiter \<sigma>" "fair_site w" "wait t w \<sigma> = Some \<sigma>'"
  shows "no_counted_waiter \<sigma>'"
proof (cases "wait_pred w (rw \<sigma>)")
  case False
  with assms show ?thesis by (auto simp: wait_def no_counted_waiter_def split: if_splits)
next
  case True
  with assms(3) obtain s where lv: "leave w (rw \<sigma>) = Some s"
    and eq: "\<sigma>' = \<lparr>rw = s, pcs = (pcs \<sigma>)(t := holding w)\<rparr>"
    by (auto simp: wait_def split: option.splits)
  have "holding w \<noteq> Blocked w'" for w' by (cases w) simp_all
  with assms(1) leave_fair_waiting[OF assms(2) lv] eq show ?thesis
    by (auto simp: no_counted_waiter_def)
qed

lemma no_counted_waiter_step:
  assumes inv: "no_counted_waiter \<sigma>" and st: "step c \<sigma> = Some \<sigma>'"
    and fair: "acquire_under_fair c \<sigma>"
  shows "no_counted_waiter \<sigma>'"
proof (cases c)
  case (Start_read t)
  with st fair have w: "wait t (In_start_read FAIR) (\<sigma>\<lparr>rw := start_read_enter (rw \<sigma>)\<rparr>) = Some \<sigma>'"
    and f: "priority (rw \<sigma>) = FAIR"
    by (auto split: if_splits)
  have "no_counted_waiter (\<sigma>\<lparr>rw := start_read_enter (rw \<sigma>)\<rparr>)"
    using inv f by (simp add: no_counted_waiter_def start_read_enter_def)
  then show ?thesis by (rule no_counted_waiter_wait[OF _ _ w]) (simp add: fair_site_def)
next
  case (Start_write t)
  with st fair have w: "wait t (In_start_write FAIR) (\<sigma>\<lparr>rw := start_write_enter (rw \<sigma>)\<rparr>) = Some \<sigma>'"
    and f: "priority (rw \<sigma>) = FAIR"
    by (auto split: if_splits)
  have "no_counted_waiter (\<sigma>\<lparr>rw := start_write_enter (rw \<sigma>)\<rparr>)"
    using inv f by (simp add: no_counted_waiter_def start_write_enter_def)
  then show ?thesis by (rule no_counted_waiter_wait[OF _ _ w]) (simp add: fair_site_def)
next
  case (Recheck t)
  with st obtain w where b: "pcs \<sigma> t = Blocked w" and w: "wait t w \<sigma> = Some \<sigma>'"
    by (auto split: pc.splits)
  from inv b have "fair_site w" by (simp add: no_counted_waiter_def)
  with inv w show ?thesis by (blast intro: no_counted_waiter_wait)
next
  case (End_read t)
  with st inv show ?thesis
    by (auto simp: no_counted_waiter_def end_read_def Let_def split: if_splits)
next
  case (End_write t)
  with st inv show ?thesis
    by (auto simp: no_counted_waiter_def end_write_def Let_def split: if_splits)
next
  case (Set_priority p)
  with st inv show ?thesis
    by (auto simp: no_counted_waiter_def set_priority_def Let_def)
next
  case (Print_status prefix)
  with st inv show ?thesis by (simp add: print_status_def)
qed

lemma no_counted_waiter_run:
  "no_counted_waiter \<sigma> \<Longrightarrow> run cs \<sigma> = Some \<sigma>' \<Longrightarrow> acquires_under_fair cs \<sigma> \<Longrightarrow>
     no_counted_waiter \<sigma>'"
proof (induction cs arbitrary: \<sigma>)
  case Nil
  then show ?case by simp
next
  case (Cons c cs)
  from Cons.prems(2) obtain \<sigma>1 where s1: "step c \<sigma> = Some \<sigma>1" and r: "run cs \<sigma>1 = Some \<sigma>'"
    by (auto split: option.splits)
  from Cons.prems(3) s1 have f: "acquire_under_fair c \<sigma>" and fs: "acquires_under_fair cs \<sigma>1"
    by simp_all
  from no_counted_waiter_step[OF Cons.prems(1) s1 f] r fs show ?case
    by (rule Cons.IH)
qed

lemma no_counted_waiter_new: "no_counted_waiter (system_new p)"
  by (simp add: no_counted_waiter_def system_new_def ReadersWriters_new_def)

lemma wait_fair_waiting:
  assumes "fair_site w" "wait t w \<sigma> = Some \<sigma>'"
  shows "waiting_readers (rw \<sigma>') = waiting_readers (rw \<sigma>)
       \<and> waiting_writers (rw \<sigma>') = waiting_writers (rw \<sigma>)"
proof (cases "wait_pred w (rw \<sigma>)")
  case False
  with assms show ?thesis by (auto simp: wait_def)
next
  case True
  with assms(2) obtain s where lv: "leave w (rw \<sigma>) = Some s" and eq: "rw \<sigma>' = s"
    by (auto simp: wait_def split: option.splits)
  from leave_fair_waiting[OF assms(1) lv] eq show ?thesis by simp
qed

lemma fair_call_waiting:
  assumes c: "(c = Start_read t \<or> c = Start_write t) \<and> priority (rw \<sigma>) = FAIR
          \<or> c = Recheck t \<and> (pcs \<sigma> t = Blocked (In_start_read FAIR)
                \<or> pcs \<sigma> t = Blocked (In_start_write FAIR))"
    and st: "step c \<sigma> = Some \<sigma>'"
  shows "waiting_readers (rw \<sigma>') = waiting_readers (rw \<sigma>)
       \<and> waiting_writers (rw \<sigma>') = waiting_writers (rw \<sigma>)"
proof -
  consider (r) "c = Start_read t" "priority (rw \<sigma>) = FAIR"
    | (w) "c = Start_write t" "priority (rw \<sigma>) = FAIR"
    | (k) w where "c = Recheck t" "pcs \<sigma> t = Blocked w" "fair_site w"
    using c by (auto simp: fair_site_def)
  then show ?thesis
  proof cases
    case r
    with st have w: "wait t (In_start_read FAIR) (\<sigma>\<lparr>rw := start_read_enter (rw \<sigma>)\<rparr>) = Some \<sigma>'"
      by (auto split: if_splits)
    from wait_fair_waiting[OF _ w] r show ?thesis
      by (simp add: fair_site_def start_read_enter_def)
  next
    case w
    with st have w: "wait t (In_start_write FAIR) (\<sigma>\<lparr>rw := start_write_enter (rw \<sigma>)\<rparr>) = Some \<sigma>'"
      by (auto split: if_splits)
    from wait_fair_waiting[OF _ w] \<open>priority (rw \<sigma>) = FAIR\<close> show ?thesis
      by (simp add: fair_site_def start_write_enter_def)
  next
    case k
    with st have "wait t w \<sigma> = Some \<sigma>'" by simp
    with k show ?thesis by (intro wait_fair_waiting)
  qed
qed

text \<open>
  C10. In the FAIR branches \<open>start_read\<close> and \<open>start_write\<close> do not touch
  \<open>waiting_readers\<close> and \<open>waiting_writers\<close>: neither at entry under FAIR nor at a later
  wake-up inside a FAIR branch. Hence, if every acquire since the construction of the
  coordinator ran under FAIR, both counters are 0 in every state reached, and the status
  line shows 0 waiting readers and 0 waiting writers, also while callers sleep on the FAIR
  queue.
\<close>

theorem fair_waiters_not_counted:
  "(((c = Start_read t \<or> c = Start_write t) \<and> priority (rw \<sigma>0) = FAIR
      \<or> c = Recheck t \<and> (pcs \<sigma>0 t = Blocked (In_start_read FAIR)
            \<or> pcs \<sigma>0 t = Blocked (In_start_write FAIR)))
     \<and> step c \<sigma>0 = Some \<sigma>1 \<longrightarrow>
       waiting_readers (rw \<sigma>1) = waiting_readers (rw \<sigma>0)
       \<and> waiting_writers (rw \<sigma>1) = waiting_writers (rw \<sigma>0))
   \<and> (run cs (system_new p) = Some \<sigma> \<and> acquires_under_fair cs (system_new p) \<longrightarrow>
       waiting_readers (rw \<sigma>) = 0 \<and> waiting_writers (rw \<sigma>) = 0
       \<and> Shown_waiting_readers 0 \<in> set (fst (print_status prefix (rw \<sigma>)))
       \<and> Shown_waiting_writers 0 \<in> set (fst (print_status prefix (rw \<sigma>))))"
proof (intro conjI impI)
  assume "((c = Start_read t \<or> c = Start_write t) \<and> priority (rw \<sigma>0) = FAIR
      \<or> c = Recheck t \<and> (pcs \<sigma>0 t = Blocked (In_start_read FAIR)
            \<or> pcs \<sigma>0 t = Blocked (In_start_write FAIR)))
     \<and> step c \<sigma>0 = Some \<sigma>1"
  then have w: "waiting_readers (rw \<sigma>1) = waiting_readers (rw \<sigma>0)
       \<and> waiting_writers (rw \<sigma>1) = waiting_writers (rw \<sigma>0)"
    using fair_call_waiting [of c t \<sigma>0 \<sigma>1] by blast
  from w show "waiting_readers (rw \<sigma>1) = waiting_readers (rw \<sigma>0)" by simp
  from w show "waiting_writers (rw \<sigma>1) = waiting_writers (rw \<sigma>0)" by simp
next
  assume "run cs (system_new p) = Some \<sigma> \<and> acquires_under_fair cs (system_new p)"
  then have n: "no_counted_waiter \<sigma>"
    using no_counted_waiter_run [OF no_counted_waiter_new, of cs p \<sigma>] by blast
  from n show "waiting_readers (rw \<sigma>) = 0" by (simp add: no_counted_waiter_def)
  from n show "waiting_writers (rw \<sigma>) = 0" by (simp add: no_counted_waiter_def)
  from n show "Shown_waiting_readers 0 \<in> set (fst (print_status prefix (rw \<sigma>)))"
    by (simp add: no_counted_waiter_def print_status_def)
  from n show "Shown_waiting_writers 0 \<in> set (fst (print_status prefix (rw \<sigma>)))"
    by (simp add: no_counted_waiter_def print_status_def)
qed

theorem fair_waiters_not_counted_witness:
  "\<exists>\<sigma>0 \<sigma>. run [Start_write 1, Start_read 2, Start_write 3, Set_priority READERS,
            Set_priority FAIR] (system_new FAIR) = Some \<sigma>0
     \<and> step (Start_read 4) \<sigma>0 = Some \<sigma>
     \<and> acquires_under_fair [Start_write 1, Start_read 2, Start_write 3, Set_priority READERS,
            Set_priority FAIR, Start_read 4] (system_new FAIR)
     \<and> pcs \<sigma> 2 = Blocked (In_start_read FAIR) \<and> pcs \<sigma> 3 = Blocked (In_start_write FAIR)
     \<and> pcs \<sigma> 4 = Blocked (In_start_read FAIR)
     \<and> waiting_readers (rw \<sigma>) = waiting_readers (rw \<sigma>0)
     \<and> fst (print_status ''s'' (rw \<sigma>)) =
         [Prefix ''s'', Shown_active_readers 0, Shown_waiting_readers 0, Shown_active_writers 1,
          Shown_writer_active True, Shown_waiting_writers 0, Shown_queue_size 1,
          Shown_priority FAIR]"
proof -
  let ?pre = "[Start_write 1, Start_read 2, Start_write 3, Set_priority READERS,
            Set_priority FAIR]"
  let ?cs = "[Start_write 1, Start_read 2, Start_write 3, Set_priority READERS,
            Set_priority FAIR, Start_read 4]"
  have a: "acquires_under_fair ?cs (system_new FAIR)"
    by (simp add: run_eval)
  have "\<exists>\<sigma>0. run ?pre (system_new FAIR) = Some \<sigma>0
      \<and> priority (rw \<sigma>0) = FAIR \<and> pcs \<sigma>0 4 = Idle"
    by (simp add: run_eval)
  then obtain \<sigma>0 where r0: "run ?pre (system_new FAIR) = Some \<sigma>0"
    and v0: "priority (rw \<sigma>0) = FAIR" "pcs \<sigma>0 4 = Idle"
    by blast
  obtain \<sigma> where r: "run ?cs (system_new FAIR) = Some \<sigma>"
    and v: "pcs \<sigma> 2 = Blocked (In_start_read FAIR)" "pcs \<sigma> 3 = Blocked (In_start_write FAIR)"
      "pcs \<sigma> 4 = Blocked (In_start_read FAIR)"
      "active_readers (rw \<sigma>) = 0" "active_writers (rw \<sigma>) = 1" "writer_active (rw \<sigma>)"
      "request_queue (rw \<sigma>) = [False]" "priority (rw \<sigma>) = FAIR"
    by (simp add: run_eval)
  have "run ?cs (system_new FAIR) = run (?pre @ [Start_read 4]) (system_new FAIR)" by simp
  also have "\<dots> = step (Start_read 4) \<sigma>0"
    using r0 by (simp only: run_append) (simp split: option.splits)
  finally have s: "step (Start_read 4) \<sigma>0 = Some \<sigma>" using r by simp
  from fair_waiters_not_counted [of "Start_read 4" 4 \<sigma>0 \<sigma> ?cs FAIR \<sigma> "''s''"] r0 r s a v v0
  show ?thesis by (auto simp: print_status_def)
qed

section \<open>Order of admission under FAIR\<close>

lemma front_is_pop: "front_is b q \<Longrightarrow> \<exists>q'. queue_pop q = Some q' \<and> q = b # q'"
  by (cases q) auto

lemma holding_neq_Blocked: "holding w \<noteq> Blocked w'"
  by (cases w) simp_all

lemma wait_fair_queue:
  assumes fs: "fair_site w" and w: "wait t w \<sigma> = Some \<sigma>'"
  shows "priority (rw \<sigma>') = priority (rw \<sigma>)
    \<and> (if pcs \<sigma>' t = holding w then [ticket w] else []) @ request_queue (rw \<sigma>')
        = request_queue (rw \<sigma>)
    \<and> (pcs \<sigma>' t = holding w \<or> pcs \<sigma>' t = Blocked w)
    \<and> (\<forall>t'. t' \<noteq> t \<longrightarrow> pcs \<sigma>' t' = pcs \<sigma> t')"
proof (cases "wait_pred w (rw \<sigma>)")
  case False
  with w have "\<sigma>' = \<sigma>\<lparr>pcs := (pcs \<sigma>)(t := Blocked w)\<rparr>" by (simp add: wait_def)
  then show ?thesis using holding_neq_Blocked[of w w] by auto
next
  case True
  from fs True have "front_is (ticket w) (request_queue (rw \<sigma>))"
    by (auto simp: fair_site_def)
  then obtain q where q: "queue_pop (request_queue (rw \<sigma>)) = Some q"
    "request_queue (rw \<sigma>) = ticket w # q"
    using front_is_pop by blast
  from fs q True w show ?thesis
    by (auto simp: fair_site_def wait_def start_read_leave_def start_write_leave_def Let_def)
qed

lemma all_fair_wait:
  assumes inv: "all_fair \<sigma>" and fs: "fair_site w" and w: "wait t w \<sigma> = Some \<sigma>'"
  shows "all_fair \<sigma>'"
  unfolding all_fair_def
proof (intro conjI allI impI)
  note W = wait_fair_queue[OF fs w]
  show "priority (rw \<sigma>') = FAIR" using W inv by (simp add: all_fair_def)
  fix t' w' assume b: "pcs \<sigma>' t' = Blocked w'"
  show "fair_site w'"
  proof (cases "t' = t")
    case True
    with W b fs holding_neq_Blocked[of w w'] show ?thesis by auto
  next
    case False
    with W b have "pcs \<sigma> t' = Blocked w'" by simp
    with inv show ?thesis by (simp add: all_fair_def)
  qed
qed

lemma granted_acquire:
  assumes "acquirer c = Some t" "step c \<sigma> = Some \<sigma>'" "pcs \<sigma>' t = holding w \<or> pcs \<sigma>' t = Blocked w"
  shows "map snd (granted c \<sigma>) = (if pcs \<sigma>' t = holding w then [ticket w] else [])"
  using assms by (cases w) (auto simp: granted_def)

lemma all_fair_step:
  assumes inv: "all_fair \<sigma>" and st: "step c \<sigma> = Some \<sigma>'" and ns: "\<not> is_switch c"
  shows "all_fair \<sigma>'
    \<and> map snd (granted c \<sigma>) @ request_queue (rw \<sigma>')
        = request_queue (rw \<sigma>) @ map snd (enqueued c \<sigma>)"
proof (cases c)
  case (Start_read t)
  from inv have f: "priority (rw \<sigma>) = FAIR" by (simp add: all_fair_def)
  let ?\<sigma>1 = "\<sigma>\<lparr>rw := start_read_enter (rw \<sigma>)\<rparr>"
  from st Start_read f have idle: "pcs \<sigma> t = Idle"
    and w: "wait t (In_start_read FAIR) ?\<sigma>1 = Some \<sigma>'"
    by (auto split: if_splits)
  have fs: "fair_site (In_start_read FAIR)" by (simp add: fair_site_def)
  note W = wait_fair_queue[OF fs w]
  have g: "map snd (granted c \<sigma>) = (if pcs \<sigma>' t = holding (In_start_read FAIR)
      then [ticket (In_start_read FAIR)] else [])"
    using W st Start_read by (intro granted_acquire) auto
  have q1: "request_queue (rw ?\<sigma>1) = request_queue (rw \<sigma>) @ [False]"
    using f by (simp add: start_read_enter_def queue_push_def)
  have p1: "priority (rw ?\<sigma>1) = FAIR" using f by (simp add: start_read_enter_def)
  have "all_fair ?\<sigma>1" using inv p1 by (simp add: all_fair_def)
  then have "all_fair \<sigma>'" using fs w by (rule all_fair_wait)
  moreover have "map snd (granted c \<sigma>) @ request_queue (rw \<sigma>')
        = request_queue (rw \<sigma>) @ map snd (enqueued c \<sigma>)"
    using g W q1 idle f Start_read by simp
  ultimately show ?thesis by simp
next
  case (Start_write t)
  from inv have f: "priority (rw \<sigma>) = FAIR" by (simp add: all_fair_def)
  let ?\<sigma>1 = "\<sigma>\<lparr>rw := start_write_enter (rw \<sigma>)\<rparr>"
  from st Start_write f have idle: "pcs \<sigma> t = Idle"
    and w: "wait t (In_start_write FAIR) ?\<sigma>1 = Some \<sigma>'"
    by (auto split: if_splits)
  have fs: "fair_site (In_start_write FAIR)" by (simp add: fair_site_def)
  note W = wait_fair_queue[OF fs w]
  have g: "map snd (granted c \<sigma>) = (if pcs \<sigma>' t = holding (In_start_write FAIR)
      then [ticket (In_start_write FAIR)] else [])"
    using W st Start_write by (intro granted_acquire) auto
  have q1: "request_queue (rw ?\<sigma>1) = request_queue (rw \<sigma>) @ [True]"
    using f by (simp add: start_write_enter_def queue_push_def)
  have p1: "priority (rw ?\<sigma>1) = FAIR" using f by (simp add: start_write_enter_def)
  have "all_fair ?\<sigma>1" using inv p1 by (simp add: all_fair_def)
  then have "all_fair \<sigma>'" using fs w by (rule all_fair_wait)
  moreover have "map snd (granted c \<sigma>) @ request_queue (rw \<sigma>')
        = request_queue (rw \<sigma>) @ map snd (enqueued c \<sigma>)"
    using g W q1 idle f Start_write by simp
  ultimately show ?thesis by simp
next
  case (Recheck t)
  with st obtain w where b: "pcs \<sigma> t = Blocked w" and w: "wait t w \<sigma> = Some \<sigma>'"
    by (auto split: pc.splits)
  from inv b have fs: "fair_site w" by (simp add: all_fair_def)
  note W = wait_fair_queue[OF fs w]
  have g: "map snd (granted c \<sigma>) = (if pcs \<sigma>' t = holding w then [ticket w] else [])"
    using W st Recheck by (intro granted_acquire) auto
  have "all_fair \<sigma>'" using inv fs w by (rule all_fair_wait)
  moreover have "map snd (granted c \<sigma>) @ request_queue (rw \<sigma>')
        = request_queue (rw \<sigma>) @ map snd (enqueued c \<sigma>)"
    using g W Recheck by simp
  ultimately show ?thesis by simp
next
  case (End_read t)
  with st inv show ?thesis
    by (auto simp: all_fair_def granted_def end_read_def Let_def split: if_splits)
next
  case (End_write t)
  with st inv show ?thesis
    by (auto simp: all_fair_def granted_def end_write_def Let_def split: if_splits)
next
  case (Set_priority p)
  with ns show ?thesis by simp
next
  case (Print_status prefix)
  with st inv show ?thesis by (simp add: granted_def print_status_def)
qed

lemma all_fair_run:
  "all_fair \<sigma> \<Longrightarrow> run cs \<sigma> = Some \<sigma>' \<Longrightarrow> \<forall>c \<in> set cs. \<not> is_switch c \<Longrightarrow>
     map snd (granted_along cs \<sigma>) @ request_queue (rw \<sigma>')
       = request_queue (rw \<sigma>) @ map snd (enqueued_along cs \<sigma>)"
proof (induction cs arbitrary: \<sigma>)
  case Nil
  then show ?case by simp
next
  case (Cons c cs)
  from Cons.prems(2) obtain \<sigma>1 where s1: "step c \<sigma> = Some \<sigma>1" and r: "run cs \<sigma>1 = Some \<sigma>'"
    by (auto split: option.splits)
  from Cons.prems(3) have ns: "\<not> is_switch c" and nss: "\<forall>c \<in> set cs. \<not> is_switch c"
    by simp_all
  note S = all_fair_step[OF Cons.prems(1) s1 ns]
  from S have inv1: "all_fair \<sigma>1" by simp
  note IH = Cons.IH[OF inv1 r nss]
  have "map snd (granted_along (c # cs) \<sigma>) @ request_queue (rw \<sigma>')
      = map snd (granted c \<sigma>) @ (map snd (granted_along cs \<sigma>1) @ request_queue (rw \<sigma>'))"
    using s1 by simp
  also have "\<dots> = map snd (granted c \<sigma>) @ request_queue (rw \<sigma>1) @ map snd (enqueued_along cs \<sigma>1)"
    using IH by simp
  also have "\<dots> = request_queue (rw \<sigma>) @ map snd (enqueued c \<sigma>) @ map snd (enqueued_along cs \<sigma>1)"
    using S by (metis append_assoc)
  also have "\<dots> = request_queue (rw \<sigma>) @ map snd (enqueued_along (c # cs) \<sigma>)"
    using s1 by simp
  finally show ?case .
qed

lemma all_fair_new: "all_fair (system_new FAIR)"
  by (simp add: all_fair_def system_new_def ReadersWriters_new_def)

lemma fair_kinds_run:
  "run cs (system_new FAIR) = Some \<sigma> \<Longrightarrow> \<forall>c \<in> set cs. \<not> is_switch c \<Longrightarrow>
     map snd (granted_along cs (system_new FAIR)) @ request_queue (rw \<sigma>)
       = map snd (enqueued_along cs (system_new FAIR))"
  using all_fair_run[OF all_fair_new, of cs \<sigma>]
  by (simp add: system_new_def ReadersWriters_new_def)

lemma recheck_false:
  assumes "step (Recheck t) \<sigma> = Some \<sigma>'" "pcs \<sigma> t = Blocked w" "\<not> wait_pred w (rw \<sigma>)"
  shows "\<sigma>' = \<sigma>"
  using assms by (auto simp: wait_def fun_upd_idem)

lemma fair_pred_blocked_by_reader:
  "fair_site w \<Longrightarrow> active_readers s > 0 \<Longrightarrow> front_is True (request_queue s) \<Longrightarrow>
     \<not> wait_pred w s"
  by (cases "request_queue s") (auto simp: fair_site_def)

lemma rechecks_behind_reader:
  "writer_ticket_behind_reader \<sigma> \<Longrightarrow> \<forall>c \<in> set rs. is_recheck c \<Longrightarrow>
     run rs \<sigma> = Some \<sigma>' \<Longrightarrow> \<sigma>' = \<sigma>"
proof (induction rs arbitrary: \<sigma>)
  case Nil
  then show ?case by simp
next
  case (Cons c rs)
  from Cons.prems(2) obtain t where c: "c = Recheck t" by (cases c) auto
  from Cons.prems(3) obtain \<sigma>1 where s1: "step c \<sigma> = Some \<sigma>1" and r: "run rs \<sigma>1 = Some \<sigma>'"
    by (auto split: option.splits)
  from s1 c obtain w where b: "pcs \<sigma> t = Blocked w" by (auto split: pc.splits)
  with Cons.prems(1) have "fair_site w"
    by (simp add: writer_ticket_behind_reader_def all_fair_def)
  with Cons.prems(1) have "\<not> wait_pred w (rw \<sigma>)"
    by (intro fair_pred_blocked_by_reader) (simp_all add: writer_ticket_behind_reader_def)
  with s1 c b have "\<sigma>1 = \<sigma>" using recheck_false by blast
  with Cons r show ?case by simp
qed

lemma reader_behind_writer_recheck:
  assumes inv: "reader_behind_writer t \<sigma>" and st: "step (Recheck u) \<sigma> = Some \<sigma>'"
  shows "reader_behind_writer t \<sigma>'"
proof -
  from st obtain w where b: "pcs \<sigma> u = Blocked w" and w: "wait u w \<sigma> = Some \<sigma>'"
    by (auto split: pc.splits)
  from inv b have fs: "fair_site w" by (simp add: reader_behind_writer_def all_fair_def)
  from inv have af: "all_fair \<sigma>" by (simp add: reader_behind_writer_def)
  show ?thesis
  proof (cases "wait_pred w (rw \<sigma>)")
    case False
    with st b have "\<sigma>' = \<sigma>" by (rule recheck_false[OF _ _ ])
    with inv show ?thesis by simp
  next
    case True
    then have nw: "\<not> writer_active (rw \<sigma>)" by (rule wait_pred_no_writer)
    with inv have hd: "front_is True (request_queue (rw \<sigma>))"
      by (simp add: reader_behind_writer_def)
    with True fs have wsite: "w = In_start_write FAIR"
      by (cases "request_queue (rw \<sigma>)") (auto simp: fair_site_def)
    with inv b have ne: "u \<noteq> t" by (auto simp: reader_behind_writer_def)
    from True w wsite obtain s where lv: "start_write_leave FAIR (rw \<sigma>) = Some s"
      and eq: "\<sigma>' = \<lparr>rw = s, pcs = (pcs \<sigma>)(u := Writing)\<rparr>"
      by (auto simp: wait_def split: option.splits)
    from lv have wa: "writer_active s"
      by (auto simp: start_write_leave_def Let_def split: option.splits)
    from all_fair_wait[OF af fs w] inv eq ne wa show ?thesis
      by (simp add: reader_behind_writer_def)
  qed
qed

lemma rechecks_behind_writer:
  "reader_behind_writer t \<sigma> \<Longrightarrow> \<forall>c \<in> set rs. is_recheck c \<Longrightarrow>
     run rs \<sigma> = Some \<sigma>' \<Longrightarrow> reader_behind_writer t \<sigma>'"
proof (induction rs arbitrary: \<sigma>)
  case Nil
  then show ?case by simp
next
  case (Cons c rs)
  from Cons.prems(2) obtain u where c: "c = Recheck u" by (cases c) auto
  from Cons.prems(3) obtain \<sigma>1 where s1: "step c \<sigma> = Some \<sigma>1" and r: "run rs \<sigma>1 = Some \<sigma>'"
    by (auto split: option.splits)
  from Cons.prems(1) s1 c have "reader_behind_writer t \<sigma>1"
    using reader_behind_writer_recheck by blast
  with Cons r show ?case by simp
qed

lemma after_submissions:
  "\<exists>\<sigma>. run submissions (system_new FAIR) = Some \<sigma>
     \<and> writer_ticket_behind_reader \<sigma> \<and> reader_behind_writer 3 \<sigma>
     \<and> pcs \<sigma> 1 = Reading \<and> pcs \<sigma> 2 = Blocked (In_start_write FAIR)
     \<and> pcs \<sigma> 3 = Blocked (In_start_read FAIR)"
  by (simp add: submissions_def run_eval writer_ticket_behind_reader_def
      reader_behind_writer_def all_fair_def fair_site_def)

lemma example_first:
  assumes "\<forall>c \<in> set rs. is_recheck c"
    and "run (submissions @ rs) (system_new FAIR) = Some \<sigma>"
  shows "pcs \<sigma> 1 = Reading \<and> pcs \<sigma> 2 = Blocked (In_start_write FAIR)
     \<and> pcs \<sigma> 3 = Blocked (In_start_read FAIR)"
proof -
  from after_submissions obtain \<sigma>0 where r0: "run submissions (system_new FAIR) = Some \<sigma>0"
    and inv: "writer_ticket_behind_reader \<sigma>0"
    and v: "pcs \<sigma>0 1 = Reading" "pcs \<sigma>0 2 = Blocked (In_start_write FAIR)"
      "pcs \<sigma>0 3 = Blocked (In_start_read FAIR)"
    by blast
  from assms(2) r0 have "run rs \<sigma>0 = Some \<sigma>" by (simp add: run_append)
  with inv assms(1) have "\<sigma> = \<sigma>0" by (rule rechecks_behind_reader)
  with v show ?thesis by simp
qed

lemma example_second:
  assumes "\<forall>c \<in> set rs. is_recheck c" "\<forall>c \<in> set rs'. is_recheck c"
    and "run (submissions @ rs @ [End_read 1] @ rs') (system_new FAIR) = Some \<sigma>"
  shows "pcs \<sigma> 3 = Blocked (In_start_read FAIR)"
proof -
  from after_submissions obtain \<sigma>0 where r0: "run submissions (system_new FAIR) = Some \<sigma>0"
    and inv: "writer_ticket_behind_reader \<sigma>0" and inv3: "reader_behind_writer 3 \<sigma>0"
    and v: "pcs \<sigma>0 1 = Reading"
    by blast
  from assms(3) r0 obtain \<sigma>1 \<sigma>2 where r1: "run rs \<sigma>0 = Some \<sigma>1"
    and e: "step (End_read 1) \<sigma>1 = Some \<sigma>2" and r2: "run rs' \<sigma>2 = Some \<sigma>"
    by (auto simp: run_append split: option.splits)
  from inv assms(1) r1 have "\<sigma>1 = \<sigma>0" by (rule rechecks_behind_reader)
  with e inv3 v have "reader_behind_writer 3 \<sigma>2"
    by (auto simp: reader_behind_writer_def all_fair_def end_read_def Let_def
        split: if_splits)
  from this assms(2) r2 have "reader_behind_writer 3 \<sigma>" by (rule rechecks_behind_writer)
  then show ?thesis by (simp add: reader_behind_writer_def)
qed

text \<open>
  What the queue does keep in order. In a run from a new FAIR coordinator without calls
  of \<open>set_priority\<close> (which empties the queue, also when the new policy is FAIR),
  every admission takes the ticket at the head of the queue and the caller admitted is of
  that ticket's kind: the kinds of the callers admitted so far, in the order of admission,
  followed by the tickets still queued, are the kinds of the requests in the order they
  were enqueued. The tickets do not say whose they are. For the submissions R1, W1, R2 on
  a new coordinator: R1 is admitted at once; whatever wake-ups occur, W1 and R2 sleep
  until R1 calls \<open>end_read\<close>; and after that R2 still sleeps, whatever wake-ups occur,
  until the writer calls \<open>end_write\<close>.
\<close>

lemma fair_kinds_in_order:
  "(run cs (system_new FAIR) = Some \<sigma> \<and> (\<forall>c \<in> set cs. \<not> is_switch c) \<longrightarrow>
      map snd (granted_along cs (system_new FAIR)) @ request_queue (rw \<sigma>)
        = map snd (enqueued_along cs (system_new FAIR)))
   \<and> (run (submissions @ rs) (system_new FAIR) = Some \<sigma>1 \<and> (\<forall>c \<in> set rs. is_recheck c) \<longrightarrow>
        pcs \<sigma>1 1 = Reading \<and> pcs \<sigma>1 2 = Blocked (In_start_write FAIR)
        \<and> pcs \<sigma>1 3 = Blocked (In_start_read FAIR))
   \<and> (run (submissions @ rs @ [End_read 1] @ rs') (system_new FAIR) = Some \<sigma>2
        \<and> (\<forall>c \<in> set rs. is_recheck c) \<and> (\<forall>c \<in> set rs'. is_recheck c) \<longrightarrow>
        pcs \<sigma>2 3 = Blocked (In_start_read FAIR))"
  using fair_kinds_run [of cs \<sigma>] example_first [of rs \<sigma>1] example_second [of rs rs' \<sigma>2]
  by blast

lemma fair_kinds_in_order_example:
  "granted_along [Start_read 1, Start_write 2, Start_read 3, Recheck 2, Recheck 3, End_read 1,
       Recheck 3, Recheck 2, Recheck 3, End_write 2, Recheck 3] (system_new FAIR)
     = [(1, False), (2, True), (3, False)]
   \<and> enqueued_along [Start_read 1, Start_write 2, Start_read 3, Recheck 2, Recheck 3, End_read 1,
       Recheck 3, Recheck 2, Recheck 3, End_write 2, Recheck 3] (system_new FAIR)
     = [(1, False), (2, True), (3, False)]
   \<and> pc_after (submissions @ [Recheck 2, Recheck 3]) (system_new FAIR) 2
     = Some (Blocked (In_start_write FAIR))
   \<and> pc_after (submissions @ [Recheck 2, Recheck 3] @ [End_read 1] @ [Recheck 3, Recheck 2, Recheck 3])
       (system_new FAIR) 2 = Some Writing
   \<and> pc_after (submissions @ [Recheck 2, Recheck 3] @ [End_read 1] @ [Recheck 3, Recheck 2, Recheck 3])
       (system_new FAIR) 3 = Some (Blocked (In_start_read FAIR))"
proof -
  let ?cs = "[Start_read 1, Start_write 2, Start_read 3, Recheck 2, Recheck 3, End_read 1,
       Recheck 3, Recheck 2, Recheck 3, End_write 2, Recheck 3]"
  let ?rs = "[Recheck 2, Recheck 3]"
  let ?rs' = "[Recheck 3, Recheck 2, Recheck 3]"
  obtain \<sigma> where r: "run ?cs (system_new FAIR) = Some \<sigma>" and q: "request_queue (rw \<sigma>) = []"
    by (simp add: run_eval)
  obtain \<sigma>1 where r1: "run (submissions @ ?rs) (system_new FAIR) = Some \<sigma>1"
    by (simp add: submissions_def run_eval)
  obtain \<sigma>2 where r2: "run (submissions @ ?rs @ [End_read 1] @ ?rs') (system_new FAIR) = Some \<sigma>2"
    and w: "pcs \<sigma>2 2 = Writing"
    by (simp add: submissions_def run_eval)
  have e: "enqueued_along ?cs (system_new FAIR) = [(1, False), (2, True), (3, False)]"
    by (simp add: run_eval)
  have g: "granted_along ?cs (system_new FAIR) = [(1, False), (2, True), (3, False)]"
    by (simp add: run_eval granted_def)
  from fair_kinds_in_order [of ?cs \<sigma> ?rs \<sigma>1 ?rs' \<sigma>2] r r1 r2 w e g q
  show ?thesis by (simp add: pc_after_def)
qed

text \<open>
  C3 fails on the code: the FAIR branches do not admit requests in the order in which
  they were enqueued. A waiting caller tests only the kind of the ticket at the front, not
  whether that ticket is its own, so any sleeper of that kind may take it.

  First run: a writer holds the resource; reader 1, writer 2 and reader 3 enqueue in this
  order; the writer leaves, and its \<open>end_write\<close> notifies all of \<open>cv_read\<close>. Reader 3 is
  the first to take the mutex: it finds a reader ticket at the front (reader 1's) and is
  admitted, while reader 1 and writer 2, both enqueued before it, still sleep.

  Second run: a reader holds the resource; writers 1 and 2 enqueue in this order; the
  reader leaves, and its \<open>end_read\<close> notifies \<open>cv_write\<close> twice. Writer 2 is the first
  to take the mutex and is admitted, while writer 1 still sleeps.
\<close>

theorem fair_order_broken:
  "enqueued_along [Start_write 0, Start_read 1, Start_write 2, Start_read 3, End_write 0,
       Recheck 3] (system_new FAIR) = [(0, True), (1, False), (2, True), (3, False)]
   \<and> granted_along [Start_write 0, Start_read 1, Start_write 2, Start_read 3, End_write 0,
       Recheck 3] (system_new FAIR) = [(0, True), (3, False)]
   \<and> pc_after [Start_write 0, Start_read 1, Start_write 2, Start_read 3, End_write 0,
       Recheck 3] (system_new FAIR) 1 = Some (Blocked (In_start_read FAIR))
   \<and> pc_after [Start_write 0, Start_read 1, Start_write 2, Start_read 3, End_write 0,
       Recheck 3] (system_new FAIR) 2 = Some (Blocked (In_start_write FAIR))
   \<and> pc_after [Start_write 0, Start_read 1, Start_write 2, Start_read 3, End_write 0,
       Recheck 3] (system_new FAIR) 3 = Some Reading
   \<and> fst (end_write \<lparr>active_readers = 0, waiting_readers = 0, active_writers = 1,
         waiting_writers = 0, priority = FAIR, writer_active = True,
         request_queue = [False, True, False]\<rparr>) = [Notify_all Cv_read]
   \<and> enqueued_along [Start_read 0, Start_write 1, Start_write 2, End_read 0, Recheck 2]
       (system_new FAIR) = [(0, False), (1, True), (2, True)]
   \<and> granted_along [Start_read 0, Start_write 1, Start_write 2, End_read 0, Recheck 2]
       (system_new FAIR) = [(0, False), (2, True)]
   \<and> pc_after [Start_read 0, Start_write 1, Start_write 2, End_read 0, Recheck 2]
       (system_new FAIR) 1 = Some (Blocked (In_start_write FAIR))
   \<and> pc_after [Start_read 0, Start_write 1, Start_write 2, End_read 0, Recheck 2]
       (system_new FAIR) 2 = Some Writing"
  by (simp add: run_eval granted_def pc_after_def)

section \<open>Switching the policy while callers sleep\<close>

text \<open>
  C4 fails on the code. A writer holds the resource under FAIR; reader 1 calls
  \<open>start_read\<close>, pushes its ticket and sleeps in the wait of the FAIR branch;
  \<open>set_priority(READERS)\<close> empties the queue and notifies everybody; the writer leaves.
  Reader 1 wakes and tests the lambda of the FAIR branch, the one it has slept in, not the
  one of READERS: the queue is empty, so it sleeps again, although no writer is active
  and the READERS predicate holds.
\<close>

theorem switch_strands_fair_reader:
  "pc_after [Start_write 0, Start_read 1, Set_priority READERS, End_write 0, Recheck 1]
       (system_new FAIR) 1 = Some (Blocked (In_start_read FAIR))
   \<and> rw_after [Start_write 0, Start_read 1, Set_priority READERS, End_write 0, Recheck 1]
       (system_new FAIR)
     = Some \<lparr>active_readers = 0, waiting_readers = 0, active_writers = 0, waiting_writers = 0,
             priority = READERS, writer_active = False, request_queue = []\<rparr>
   \<and> wait_pred (In_start_read READERS)
       \<lparr>active_readers = 0, waiting_readers = 0, active_writers = 0, waiting_writers = 0,
        priority = READERS, writer_active = False, request_queue = []\<rparr>
   \<and> \<not> wait_pred (In_start_read FAIR)
       \<lparr>active_readers = 0, waiting_readers = 0, active_writers = 0, waiting_writers = 0,
        priority = READERS, writer_active = False, request_queue = []\<rparr>"
  by (simp add: run_eval pc_after_def rw_after_def drain_Nil)

lemma fair_site_needs_ticket: "fair_site w \<Longrightarrow> request_queue s = [] \<Longrightarrow> \<not> wait_pred w s"
  by (auto simp: fair_site_def)

lemma leave_other_queue:
  "\<not> fair_site w \<Longrightarrow> leave w s = Some s' \<Longrightarrow>
     request_queue s' = request_queue s \<and> priority s' = priority s"
  by (cases w) (auto simp: fair_site_def start_read_leave_def start_write_leave_def Let_def)

lemma stranded_wait:
  assumes inv: "stranded t \<sigma>" and w: "wait u w \<sigma> = Some \<sigma>'"
    and u: "u = t \<longrightarrow> w = In_start_read FAIR"
  shows "stranded t \<sigma>'"
proof (cases "wait_pred w (rw \<sigma>)")
  case False
  with w have "\<sigma>' = \<sigma>\<lparr>pcs := (pcs \<sigma>)(u := Blocked w)\<rparr>" by (simp add: wait_def)
  with inv u show ?thesis by (auto simp: stranded_def)
next
  case True
  with inv have nf: "\<not> fair_site w"
    using fair_site_needs_ticket[of w "rw \<sigma>"] by (auto simp: stranded_def)
  with u have ne: "u \<noteq> t" by (auto simp: fair_site_def)
  from True w obtain s where lv: "leave w (rw \<sigma>) = Some s"
    and eq: "\<sigma>' = \<lparr>rw = s, pcs = (pcs \<sigma>)(u := holding w)\<rparr>"
    by (auto simp: wait_def split: option.splits)
  from leave_other_queue[OF nf lv] inv eq ne show ?thesis
    by (simp add: stranded_def)
qed

lemma stranded_step:
  assumes inv: "stranded t \<sigma>" and st: "step c \<sigma> = Some \<sigma>'" and c: "c \<noteq> Set_priority FAIR"
  shows "stranded t \<sigma>'"
proof (cases c)
  case (Start_read u)
  with st have idle: "pcs \<sigma> u = Idle"
    and w: "wait u (In_start_read (priority (rw \<sigma>))) (\<sigma>\<lparr>rw := start_read_enter (rw \<sigma>)\<rparr>) = Some \<sigma>'"
    by (auto split: if_splits)
  from inv idle have ne: "u \<noteq> t" by (auto simp: stranded_def)
  have "stranded t (\<sigma>\<lparr>rw := start_read_enter (rw \<sigma>)\<rparr>)"
    using inv by (simp add: stranded_def start_read_enter_def)
  then show ?thesis by (rule stranded_wait[OF _ w]) (simp add: ne)
next
  case (Start_write u)
  with st have idle: "pcs \<sigma> u = Idle"
    and w: "wait u (In_start_write (priority (rw \<sigma>))) (\<sigma>\<lparr>rw := start_write_enter (rw \<sigma>)\<rparr>) = Some \<sigma>'"
    by (auto split: if_splits)
  from inv idle have ne: "u \<noteq> t" by (auto simp: stranded_def)
  have "stranded t (\<sigma>\<lparr>rw := start_write_enter (rw \<sigma>)\<rparr>)"
    using inv by (simp add: stranded_def start_write_enter_def)
  then show ?thesis by (rule stranded_wait[OF _ w]) (simp add: ne)
next
  case (Recheck u)
  with st obtain w where b: "pcs \<sigma> u = Blocked w" and w: "wait u w \<sigma> = Some \<sigma>'"
    by (auto split: pc.splits)
  from inv b have "u = t \<longrightarrow> w = In_start_read FAIR" by (auto simp: stranded_def)
  with inv w show ?thesis by (rule stranded_wait)
next
  case (End_read u)
  with st inv show ?thesis
    by (auto simp: stranded_def end_read_def Let_def split: if_splits)
next
  case (End_write u)
  with st inv show ?thesis
    by (auto simp: stranded_def end_write_def Let_def split: if_splits)
next
  case (Set_priority p)
  with c have "p \<noteq> FAIR" by simp
  with Set_priority st inv show ?thesis
    by (auto simp: stranded_def set_priority_def Let_def)
next
  case (Print_status prefix)
  with st inv show ?thesis by (simp add: print_status_def)
qed

lemma stranded_run:
  "stranded t \<sigma> \<Longrightarrow> \<forall>c \<in> set cs. c \<noteq> Set_priority FAIR \<Longrightarrow> run cs \<sigma> = Some \<sigma>' \<Longrightarrow>
     stranded t \<sigma>'"
proof (induction cs arbitrary: \<sigma>)
  case Nil
  then show ?case by simp
next
  case (Cons c cs)
  from Cons.prems(3) obtain \<sigma>1 where s1: "step c \<sigma> = Some \<sigma>1" and r: "run cs \<sigma>1 = Some \<sigma>'"
    by (auto split: option.splits)
  from Cons.prems(2) have "c \<noteq> Set_priority FAIR" by simp
  with Cons.prems(1) s1 have "stranded t \<sigma>1" by (rule stranded_step)
  with Cons r show ?case by simp
qed

text \<open>
  The reader of the scenario above never leaves \<open>start_read\<close>, whatever the other callers
  do, unless the policy is switched back to FAIR and somebody pushes a reader ticket: no
  call pushes a ticket under READERS or WRITERS, so the lambda it tests stays false.
\<close>

lemma stranded_reader_stays:
  assumes "\<forall>c \<in> set cs. c \<noteq> Set_priority FAIR"
    and "run (switch_scenario @ cs) (system_new FAIR) = Some \<sigma>"
  shows "pcs \<sigma> 1 = Blocked (In_start_read FAIR)"
proof -
  obtain \<sigma>0 where r0: "run switch_scenario (system_new FAIR) = Some \<sigma>0"
    and s0: "stranded 1 \<sigma>0"
    by (simp add: switch_scenario_def run_eval stranded_def drain_Nil)
  from assms(2) r0 have "run cs \<sigma>0 = Some \<sigma>" by (simp add: run_append)
  with s0 assms(1) have "stranded 1 \<sigma>" by (rule stranded_run)
  then show ?thesis by (simp add: stranded_def)
qed

section \<open>Admission under READERS and WRITERS\<close>

lemma wait_write_any:
  assumes w: "wait t (In_start_write b) \<sigma> = Some \<sigma>'"
  shows "(pcs \<sigma>' t = Writing \<longrightarrow>
            \<not> writer_active (rw \<sigma>) \<and> active_readers (rw \<sigma>) = 0
            \<and> writer_active (rw \<sigma>') \<and> active_writers (rw \<sigma>') = active_writers (rw \<sigma>) + 1)
       \<and> (pcs \<sigma>' t \<noteq> Writing \<longrightarrow> pcs \<sigma>' t = Blocked (In_start_write b))
       \<and> ((b = READERS \<or> b = WRITERS)
            \<and> \<not> writer_active (rw \<sigma>) \<and> active_readers (rw \<sigma>) = 0 \<longrightarrow>
            pcs \<sigma>' t = Writing)"
proof (cases "wait_pred (In_start_write b) (rw \<sigma>)")
  case True
  then have p: "\<not> writer_active (rw \<sigma>)" "active_readers (rw \<sigma>) = 0"
    by (simp_all add: wait_pred_no_writer wait_pred_write_no_reader)
  from True w obtain s where lv: "start_write_leave b (rw \<sigma>) = Some s"
    and eq: "\<sigma>' = \<lparr>rw = s, pcs = (pcs \<sigma>)(t := Writing)\<rparr>"
    by (auto simp: wait_def split: option.splits)
  from lv have "writer_active s" "active_writers s = active_writers (rw \<sigma>) + 1"
    by (auto simp: start_write_leave_def Let_def split: if_splits option.splits)
  with p eq show ?thesis by simp
next
  case False
  with w have eq: "\<sigma>' = \<sigma>\<lparr>pcs := (pcs \<sigma>)(t := Blocked (In_start_write b))\<rparr>"
    by (simp add: wait_def)
  from False have "\<not> ((b = READERS \<or> b = WRITERS)
      \<and> \<not> writer_active (rw \<sigma>) \<and> active_readers (rw \<sigma>) = 0)"
    by (cases b) simp_all
  with eq show ?thesis by simp
qed

lemma start_write_enter_frame:
  "writer_active (start_write_enter s) = writer_active s"
  "active_readers (start_write_enter s) = active_readers s"
  "active_writers (start_write_enter s) = active_writers s"
  by (simp_all add: start_write_enter_def)

text \<open>
  C6. Whatever branch a \<open>start_write\<close> took, it is admitted, at entry or at a later
  wake-up, only in a state where \<open>writer_active\<close> is false and \<open>active_readers\<close> is 0,
  and on admission \<open>writer_active\<close> becomes true and \<open>active_writers\<close> grows by one; a
  call that is not admitted sleeps in its branch. In the READERS and the WRITERS branch
  this condition is also enough for admission, and the two branches test the same
  predicate.
\<close>

theorem start_write_admission:
  assumes c: "c = Start_write t \<and> priority (rw \<sigma>) = b
          \<or> c = Recheck t \<and> pcs \<sigma> t = Blocked (In_start_write b)"
    and st: "step c \<sigma> = Some \<sigma>'"
  shows "(pcs \<sigma>' t = Writing \<longrightarrow>
            \<not> writer_active (rw \<sigma>) \<and> active_readers (rw \<sigma>) = 0
            \<and> writer_active (rw \<sigma>') \<and> active_writers (rw \<sigma>') = active_writers (rw \<sigma>) + 1)
       \<and> (pcs \<sigma>' t \<noteq> Writing \<longrightarrow> pcs \<sigma>' t = Blocked (In_start_write b))
       \<and> ((b = READERS \<or> b = WRITERS)
            \<and> \<not> writer_active (rw \<sigma>) \<and> active_readers (rw \<sigma>) = 0 \<longrightarrow>
            pcs \<sigma>' t = Writing)
       \<and> wait_pred (In_start_write READERS) (rw \<sigma>) = wait_pred (In_start_write WRITERS) (rw \<sigma>)"
  using c
proof
  assume a: "c = Start_write t \<and> priority (rw \<sigma>) = b"
  with st have w: "wait t (In_start_write b) (\<sigma>\<lparr>rw := start_write_enter (rw \<sigma>)\<rparr>) = Some \<sigma>'"
    by (auto split: if_splits)
  have fr: "writer_active (rw (\<sigma>\<lparr>rw := start_write_enter (rw \<sigma>)\<rparr>)) = writer_active (rw \<sigma>)"
    "active_readers (rw (\<sigma>\<lparr>rw := start_write_enter (rw \<sigma>)\<rparr>)) = active_readers (rw \<sigma>)"
    "active_writers (rw (\<sigma>\<lparr>rw := start_write_enter (rw \<sigma>)\<rparr>)) = active_writers (rw \<sigma>)"
    by (simp_all add: start_write_enter_frame)
  have same: "wait_pred (In_start_write READERS) (rw \<sigma>)
      = wait_pred (In_start_write WRITERS) (rw \<sigma>)"
    by simp
  from wait_write_any[OF w] same show ?thesis
    unfolding fr by blast
next
  assume a: "c = Recheck t \<and> pcs \<sigma> t = Blocked (In_start_write b)"
  with st have w: "wait t (In_start_write b) \<sigma> = Some \<sigma>'" by simp
  have same: "wait_pred (In_start_write READERS) (rw \<sigma>)
      = wait_pred (In_start_write WRITERS) (rw \<sigma>)"
    by simp
  from wait_write_any[OF w] same show ?thesis by blast
qed

theorem start_write_admission_witness:
  "(\<exists>\<sigma>'. step (Start_write 1) (system_new READERS) = Some \<sigma>' \<and> pcs \<sigma>' 1 = Writing
        \<and> writer_active (rw \<sigma>') \<and> active_writers (rw \<sigma>') = 1)
   \<and> (\<exists>\<sigma>'. step (Start_write 1)
          \<lparr>rw = \<lparr>active_readers = 1, waiting_readers = 0, active_writers = 0,
                  waiting_writers = 0, priority = WRITERS, writer_active = False,
                  request_queue = []\<rparr>,
           pcs = (\<lambda>t. Idle)(0 := Reading)\<rparr> = Some \<sigma>'
        \<and> pcs \<sigma>' 1 = Blocked (In_start_write WRITERS))"
proof -
  let ?\<sigma> = "\<lparr>rw = \<lparr>active_readers = 1, waiting_readers = 0, active_writers = 0,
                  waiting_writers = 0, priority = WRITERS, writer_active = False,
                  request_queue = []\<rparr>,
           pcs = (\<lambda>t. Idle)(0 := Reading)\<rparr>"
  obtain \<sigma>1 where s1: "step (Start_write 1) (system_new READERS) = Some \<sigma>1"
    by (simp add: run_eval)
  obtain \<sigma>2 where s2: "step (Start_write 1) ?\<sigma> = Some \<sigma>2"
    by (simp add: run_eval)
  from start_write_admission [of "Start_write 1" 1 "system_new READERS" READERS \<sigma>1] s1
  have "pcs \<sigma>1 1 = Writing \<and> writer_active (rw \<sigma>1) \<and> active_writers (rw \<sigma>1) = 1"
    by (simp add: system_new_def ReadersWriters_new_def)
  moreover from start_write_admission [of "Start_write 1" 1 ?\<sigma> WRITERS \<sigma>2] s2
  have "pcs \<sigma>2 1 = Blocked (In_start_write WRITERS)"
    by simp
  ultimately show ?thesis using s1 s2 by blast
qed

lemma wait_read_writers:
  assumes "wait t (In_start_read WRITERS) \<sigma> = Some \<sigma>'"
  shows "(pcs \<sigma>' t = Reading \<longleftrightarrow> \<not> writer_active (rw \<sigma>) \<and> waiting_writers (rw \<sigma>) = 0)
       \<and> (pcs \<sigma>' t \<noteq> Reading \<longrightarrow> pcs \<sigma>' t = Blocked (In_start_read WRITERS))"
proof (cases "wait_pred (In_start_read WRITERS) (rw \<sigma>)")
  case True
  with assms show ?thesis
    by (auto simp: wait_def start_read_leave_def)
next
  case False
  with assms show ?thesis
    by (auto simp: wait_def)
qed

lemma counted_leave:
  assumes fin: "finite (inside f)" and ft: "f t = Blocked w"
  shows "counted_writers (f(t := holding w))
       = counted_writers f - (if w = In_start_write READERS \<or> w = In_start_write WRITERS then 1 else 0)"
proof -
  have h: "holding w \<noteq> Blocked w'" for w' by (rule holding_neq_Blocked)
  consider (r) "w = In_start_write READERS" | (w) "w = In_start_write WRITERS"
    | (o) "w \<noteq> In_start_write READERS" "w \<noteq> In_start_write WRITERS"
    by blast
  then show ?thesis
  proof cases
    case r
    have "Suc (card (callers_at (f(t := holding w)) (Blocked (In_start_write READERS))))
        = card (callers_at f (Blocked (In_start_write READERS)))"
      using fin ft r h by (intro card_exit) auto
    moreover have "card (callers_at (f(t := holding w)) (Blocked (In_start_write WRITERS)))
        = card (callers_at f (Blocked (In_start_write WRITERS)))"
      using ft r h by (intro card_other) auto
    ultimately show ?thesis using r by (simp add: counted_writers_def)
  next
    case w
    have "Suc (card (callers_at (f(t := holding w)) (Blocked (In_start_write WRITERS))))
        = card (callers_at f (Blocked (In_start_write WRITERS)))"
      using fin ft w h by (intro card_exit) auto
    moreover have "card (callers_at (f(t := holding w)) (Blocked (In_start_write READERS)))
        = card (callers_at f (Blocked (In_start_write READERS)))"
      using ft w h by (intro card_other) auto
    ultimately show ?thesis using w by (simp add: counted_writers_def)
  next
    case o
    have "card (callers_at (f(t := holding w)) (Blocked (In_start_write WRITERS)))
        = card (callers_at f (Blocked (In_start_write WRITERS)))"
      using ft o h by (intro card_other) auto
    moreover have "card (callers_at (f(t := holding w)) (Blocked (In_start_write READERS)))
        = card (callers_at f (Blocked (In_start_write READERS)))"
      using ft o h by (intro card_other) auto
    ultimately show ?thesis using o by (simp add: counted_writers_def)
  qed
qed

lemma counted_sleep:
  assumes fin: "finite (inside f)" and ft: "f t = Idle"
  shows "counted_writers (f(t := Blocked w))
       = counted_writers f + (if w = In_start_write READERS \<or> w = In_start_write WRITERS then 1 else 0)"
proof -
  consider (r) "w = In_start_write READERS" | (w) "w = In_start_write WRITERS"
    | (o) "w \<noteq> In_start_write READERS" "w \<noteq> In_start_write WRITERS"
    by blast
  then show ?thesis
  proof cases
    case r
    have "card (callers_at (f(t := Blocked (In_start_write READERS))) (Blocked (In_start_write READERS)))
        = Suc (card (callers_at f (Blocked (In_start_write READERS))))"
      using fin ft by (intro card_enter) auto
    moreover have "card (callers_at (f(t := Blocked w)) (Blocked (In_start_write WRITERS)))
        = card (callers_at f (Blocked (In_start_write WRITERS)))"
      using ft r by (intro card_other) auto
    ultimately show ?thesis using r by (simp add: counted_writers_def)
  next
    case w
    have "card (callers_at (f(t := Blocked (In_start_write WRITERS))) (Blocked (In_start_write WRITERS)))
        = Suc (card (callers_at f (Blocked (In_start_write WRITERS))))"
      using fin ft by (intro card_enter) auto
    moreover have "card (callers_at (f(t := Blocked w)) (Blocked (In_start_write READERS)))
        = card (callers_at f (Blocked (In_start_write READERS)))"
      using ft w by (intro card_other) auto
    ultimately show ?thesis using w by (simp add: counted_writers_def)
  next
    case o
    have "card (callers_at (f(t := Blocked w)) (Blocked (In_start_write WRITERS)))
        = card (callers_at f (Blocked (In_start_write WRITERS)))"
      using ft o by (intro card_other) auto
    moreover have "card (callers_at (f(t := Blocked w)) (Blocked (In_start_write READERS)))
        = card (callers_at f (Blocked (In_start_write READERS)))"
      using ft o by (intro card_other) auto
    ultimately show ?thesis using o by (simp add: counted_writers_def)
  qed
qed

lemma counted_idle:
  assumes "f t = Reading \<or> f t = Writing"
  shows "counted_writers (f(t := Idle)) = counted_writers f"
proof -
  have "card (callers_at (f(t := Idle)) (Blocked (In_start_write WRITERS)))
      = card (callers_at f (Blocked (In_start_write WRITERS)))"
    using assms by (intro card_other) auto
  moreover have "card (callers_at (f(t := Idle)) (Blocked (In_start_write READERS)))
      = card (callers_at f (Blocked (In_start_write READERS)))"
    using assms by (intro card_other) auto
  ultimately show ?thesis by (simp add: counted_writers_def)
qed

lemma leave_waiting_writers:
  assumes "leave w s = Some s'"
  shows "waiting_writers s' = waiting_writers s
       - (if w = In_start_write READERS \<or> w = In_start_write WRITERS then 1 else 0)"
proof (cases w)
  case (In_start_read b)
  with assms show ?thesis
    by (auto simp: start_read_leave_def split: option.splits if_splits)
next
  case (In_start_write b)
  with assms show ?thesis
    by (cases b) (auto simp: start_write_leave_def Let_def split: option.splits)
qed

text \<open>One pass of a wait keeps the count right, when the caller is taken to sleep at \<open>w\<close>
  on entry.\<close>

lemma writers_counted_wait:
  assumes fin: "finite (inside (pcs \<sigma>))"
    and cnt: "waiting_writers (rw \<sigma>) = counted_writers ((pcs \<sigma>)(t := Blocked w))"
    and w: "wait t w \<sigma> = Some \<sigma>'"
  shows "writers_counted \<sigma>'"
proof (cases "wait_pred w (rw \<sigma>)")
  case False
  with w have "\<sigma>' = \<sigma>\<lparr>pcs := (pcs \<sigma>)(t := Blocked w)\<rparr>" by (simp add: wait_def)
  with fin cnt show ?thesis by (simp add: writers_counted_def finite_upd)
next
  case True
  with w obtain s where lv: "leave w (rw \<sigma>) = Some s"
    and eq: "\<sigma>' = \<lparr>rw = s, pcs = (pcs \<sigma>)(t := holding w)\<rparr>"
    by (auto simp: wait_def split: option.splits)
  let ?f = "(pcs \<sigma>)(t := Blocked w)"
  have "finite (inside ?f)" using fin by (rule finite_upd)
  then have "counted_writers (?f(t := holding w))
       = counted_writers ?f - (if w = In_start_write READERS \<or> w = In_start_write WRITERS then 1 else 0)"
    by (rule counted_leave) simp
  moreover have "?f(t := holding w) = (pcs \<sigma>)(t := holding w)" by simp
  ultimately show ?thesis using leave_waiting_writers[OF lv] cnt eq fin
    by (simp add: writers_counted_def finite_upd)
qed

lemma writers_counted_step:
  assumes inv: "writers_counted \<sigma>" and st: "step c \<sigma> = Some \<sigma>'"
  shows "writers_counted \<sigma>'"
proof (cases c)
  case (Start_read t)
  with st have idle: "pcs \<sigma> t = Idle"
    and w: "wait t (In_start_read (priority (rw \<sigma>))) (\<sigma>\<lparr>rw := start_read_enter (rw \<sigma>)\<rparr>) = Some \<sigma>'"
    by (auto split: if_splits)
  from inv have fin: "finite (inside (pcs \<sigma>))" by (simp add: writers_counted_def)
  show ?thesis
  proof (rule writers_counted_wait[OF _ _ w])
    show "finite (inside (pcs (\<sigma>\<lparr>rw := start_read_enter (rw \<sigma>)\<rparr>)))" using fin by simp
    show "waiting_writers (rw (\<sigma>\<lparr>rw := start_read_enter (rw \<sigma>)\<rparr>))
        = counted_writers ((pcs (\<sigma>\<lparr>rw := start_read_enter (rw \<sigma>)\<rparr>))
            (t := Blocked (In_start_read (priority (rw \<sigma>)))))"
      using inv counted_sleep[OF fin idle, of "In_start_read (priority (rw \<sigma>))"]
      by (simp add: writers_counted_def start_read_enter_def)
  qed
next
  case (Start_write t)
  with st have idle: "pcs \<sigma> t = Idle"
    and w: "wait t (In_start_write (priority (rw \<sigma>))) (\<sigma>\<lparr>rw := start_write_enter (rw \<sigma>)\<rparr>) = Some \<sigma>'"
    by (auto split: if_splits)
  from inv have fin: "finite (inside (pcs \<sigma>))" by (simp add: writers_counted_def)
  show ?thesis
  proof (rule writers_counted_wait[OF _ _ w])
    show "finite (inside (pcs (\<sigma>\<lparr>rw := start_write_enter (rw \<sigma>)\<rparr>)))" using fin by simp
    show "waiting_writers (rw (\<sigma>\<lparr>rw := start_write_enter (rw \<sigma>)\<rparr>))
        = counted_writers ((pcs (\<sigma>\<lparr>rw := start_write_enter (rw \<sigma>)\<rparr>))
            (t := Blocked (In_start_write (priority (rw \<sigma>)))))"
      using inv counted_sleep[OF fin idle, of "In_start_write (priority (rw \<sigma>))"]
      by (cases "priority (rw \<sigma>)") (simp_all add: writers_counted_def start_write_enter_def)
  qed
next
  case (Recheck t)
  with st obtain w where b: "pcs \<sigma> t = Blocked w" and w: "wait t w \<sigma> = Some \<sigma>'"
    by (auto split: pc.splits)
  from b have "(pcs \<sigma>)(t := Blocked w) = pcs \<sigma>" by (simp add: fun_upd_idem)
  with inv show ?thesis
    by (intro writers_counted_wait[OF _ _ w]) (simp_all add: writers_counted_def)
next
  case (End_read t)
  with st have rd: "pcs \<sigma> t = Reading"
    and eq: "\<sigma>' = \<lparr>rw = snd (end_read (rw \<sigma>)), pcs = (pcs \<sigma>)(t := Idle)\<rparr>"
    by (auto split: if_splits)
  from rd have "counted_writers ((pcs \<sigma>)(t := Idle)) = counted_writers (pcs \<sigma>)"
    by (intro counted_idle) simp
  with inv eq show ?thesis
    by (simp add: writers_counted_def finite_upd end_read_def Let_def)
next
  case (End_write t)
  with st have wr: "pcs \<sigma> t = Writing"
    and eq: "\<sigma>' = \<lparr>rw = snd (end_write (rw \<sigma>)), pcs = (pcs \<sigma>)(t := Idle)\<rparr>"
    by (auto split: if_splits)
  from wr have "counted_writers ((pcs \<sigma>)(t := Idle)) = counted_writers (pcs \<sigma>)"
    by (intro counted_idle) simp
  with inv eq show ?thesis
    by (simp add: writers_counted_def finite_upd end_write_def Let_def)
next
  case (Set_priority p)
  with st inv show ?thesis
    by (auto simp: writers_counted_def set_priority_def Let_def)
next
  case (Print_status prefix)
  with st inv show ?thesis by (simp add: print_status_def)
qed

lemma writers_counted_run:
  "writers_counted \<sigma> \<Longrightarrow> run cs \<sigma> = Some \<sigma>' \<Longrightarrow> writers_counted \<sigma>'"
proof (induction cs arbitrary: \<sigma>)
  case Nil
  then show ?case by simp
next
  case (Cons c cs)
  then show ?case by (auto split: option.splits dest: writers_counted_step)
qed

lemma writers_counted_new: "writers_counted (system_new p)"
  by (simp add: writers_counted_def counted_writers_def system_new_def ReadersWriters_new_def
      inside_def callers_at_def)

lemma no_counted_writer:
  assumes "writers_counted \<sigma>" "waiting_writers (rw \<sigma>) = 0"
  shows "pcs \<sigma> u \<noteq> Blocked (In_start_write READERS)
       \<and> pcs \<sigma> u \<noteq> Blocked (In_start_write WRITERS)"
proof -
  from assms have fin: "finite (inside (pcs \<sigma>))"
    and z: "card (callers_at (pcs \<sigma>) (Blocked (In_start_write READERS))) = 0"
      "card (callers_at (pcs \<sigma>) (Blocked (In_start_write WRITERS))) = 0"
    by (simp_all add: writers_counted_def counted_writers_def)
  from fin have "finite (callers_at (pcs \<sigma>) (Blocked (In_start_write READERS)))"
    "finite (callers_at (pcs \<sigma>) (Blocked (In_start_write WRITERS)))"
    by (simp_all add: finite_at)
  with z have "callers_at (pcs \<sigma>) (Blocked (In_start_write READERS)) = {}"
    "callers_at (pcs \<sigma>) (Blocked (In_start_write WRITERS)) = {}"
    by simp_all
  then show ?thesis by (auto simp: callers_at_def)
qed

text \<open>
  What the WRITERS branch of \<open>start_read\<close> tests. In every state a run can reach, a
  caller in that branch is admitted, at entry or at a wake-up, exactly when at that moment
  \<open>writer_active\<close> is false and \<open>waiting_writers\<close> is 0. The counter is the number of
  callers asleep in the READERS and WRITERS branches of \<open>start_write\<close>.
\<close>

lemma writers_branch_admission:
  assumes r: "run cs (system_new p) = Some \<sigma>"
    and c: "c = Start_read t \<and> priority (rw \<sigma>) = WRITERS
          \<or> c = Recheck t \<and> pcs \<sigma> t = Blocked (In_start_read WRITERS)"
    and st: "step c \<sigma> = Some \<sigma>'"
  shows "(pcs \<sigma>' t = Reading \<longleftrightarrow> \<not> writer_active (rw \<sigma>) \<and> waiting_writers (rw \<sigma>) = 0)
       \<and> (pcs \<sigma>' t \<noteq> Reading \<longrightarrow> pcs \<sigma>' t = Blocked (In_start_read WRITERS))
       \<and> (pcs \<sigma>' t = Reading \<longrightarrow>
            (\<forall>u. pcs \<sigma> u \<noteq> Blocked (In_start_write READERS)
               \<and> pcs \<sigma> u \<noteq> Blocked (In_start_write WRITERS)))"
proof -
  from r have wc: "writers_counted \<sigma>"
    using writers_counted_run[OF writers_counted_new] by blast
  have main: "(pcs \<sigma>' t = Reading \<longleftrightarrow> \<not> writer_active (rw \<sigma>) \<and> waiting_writers (rw \<sigma>) = 0)
       \<and> (pcs \<sigma>' t \<noteq> Reading \<longrightarrow> pcs \<sigma>' t = Blocked (In_start_read WRITERS))"
    using c
  proof
    assume a: "c = Start_read t \<and> priority (rw \<sigma>) = WRITERS"
    with st have w: "wait t (In_start_read WRITERS) (\<sigma>\<lparr>rw := start_read_enter (rw \<sigma>)\<rparr>) = Some \<sigma>'"
      by (auto split: if_splits)
    from wait_read_writers[OF w] a show ?thesis
      by (simp add: start_read_enter_def)
  next
    assume a: "c = Recheck t \<and> pcs \<sigma> t = Blocked (In_start_read WRITERS)"
    with st have w: "wait t (In_start_read WRITERS) \<sigma> = Some \<sigma>'" by simp
    from wait_read_writers[OF w] show ?thesis by simp
  qed
  with no_counted_writer[OF wc] show ?thesis by blast
qed

lemma writers_branch_admission_example:
  "(\<exists>\<sigma> \<sigma>'. run [Start_write 0, Start_write 1, Start_read 2, End_write 0]
            (system_new WRITERS) = Some \<sigma>
        \<and> step (Recheck 2) \<sigma> = Some \<sigma>' \<and> \<not> writer_active (rw \<sigma>)
        \<and> waiting_writers (rw \<sigma>) = 1 \<and> pcs \<sigma>' 2 = Blocked (In_start_read WRITERS))
   \<and> (\<exists>\<sigma> \<sigma>'. run [Start_write 0, Start_write 1, Start_read 2, End_write 0, Recheck 1,
             End_write 1] (system_new WRITERS) = Some \<sigma>
        \<and> step (Recheck 2) \<sigma> = Some \<sigma>' \<and> \<not> writer_active (rw \<sigma>)
        \<and> waiting_writers (rw \<sigma>) = 0 \<and> pcs \<sigma>' 2 = Reading)"
proof -
  let ?early = "[Start_write 0, Start_write 1, Start_read 2, End_write 0]"
  let ?late = "[Start_write 0, Start_write 1, Start_read 2, End_write 0, Recheck 1, End_write 1]"
  obtain \<sigma>1 where r1: "run ?early (system_new WRITERS) = Some \<sigma>1"
    and v1: "pcs \<sigma>1 2 = Blocked (In_start_read WRITERS)" "\<not> writer_active (rw \<sigma>1)"
      "waiting_writers (rw \<sigma>1) = 1"
    by (simp add: run_eval)
  obtain \<sigma>2 where r2: "run ?late (system_new WRITERS) = Some \<sigma>2"
    and v2: "pcs \<sigma>2 2 = Blocked (In_start_read WRITERS)" "\<not> writer_active (rw \<sigma>2)"
      "waiting_writers (rw \<sigma>2) = 0"
    by (simp add: run_eval)
  from v1 obtain \<sigma>1' where s1: "step (Recheck 2) \<sigma>1 = Some \<sigma>1'"
    by (simp add: wait_def)
  from v2 obtain \<sigma>2' where s2: "step (Recheck 2) \<sigma>2 = Some \<sigma>2'"
    by (simp add: wait_def start_read_leave_def)
  from writers_branch_admission [OF r1 _ s1, of 2] v1
  have "pcs \<sigma>1' 2 = Blocked (In_start_read WRITERS)" by simp
  moreover from writers_branch_admission [OF r2 _ s2, of 2] v2
  have "pcs \<sigma>2' 2 = Reading" by simp
  ultimately show ?thesis using r1 r2 s1 s2 v1 v2 by blast
qed

text \<open>
  Without a policy switch the rule of WRITERS holds for every reader. In a run from a new
  WRITERS coordinator without calls of \<open>set_priority\<close>, whenever a step admits a reader,
  \<open>writer_active\<close> is false, \<open>waiting_writers\<close> is 0 and no caller is asleep in
  \<open>start_write\<close>.
\<close>

lemma leave_priority: "leave w s = Some s' \<Longrightarrow> priority s' = priority s"
  by (cases w)
    (auto simp: start_read_leave_def start_write_leave_def Let_def split: if_splits option.splits)

lemma wait_moves_one:
  assumes w: "wait t w \<sigma> = Some \<sigma>'"
  shows "priority (rw \<sigma>') = priority (rw \<sigma>)
    \<and> (pcs \<sigma>' t = holding w \<or> pcs \<sigma>' t = Blocked w)
    \<and> (\<forall>u. u \<noteq> t \<longrightarrow> pcs \<sigma>' u = pcs \<sigma> u)"
proof (cases "wait_pred w (rw \<sigma>)")
  case False
  with w have "\<sigma>' = \<sigma>\<lparr>pcs := (pcs \<sigma>)(t := Blocked w)\<rparr>" by (simp add: wait_def)
  then show ?thesis by simp
next
  case True
  with w obtain s where lv: "leave w (rw \<sigma>) = Some s"
    and eq: "\<sigma>' = \<lparr>rw = s, pcs = (pcs \<sigma>)(t := holding w)\<rparr>"
    by (auto simp: wait_def split: option.splits)
  from leave_priority[OF lv] eq show ?thesis by simp
qed

lemma writers_only_wait:
  assumes inv: "writers_only \<sigma>" and w: "wait t w \<sigma> = Some \<sigma>'"
    and site: "writers_site w"
  shows "writers_only \<sigma>'"
  unfolding writers_only_def
proof (intro conjI allI impI)
  note W = wait_moves_one[OF w]
  show "priority (rw \<sigma>') = WRITERS" using W inv by (simp add: writers_only_def)
  fix u w' assume b: "pcs \<sigma>' u = Blocked w'"
  show "writers_site w'"
  proof (cases "u = t")
    case True
    with W b site holding_neq_Blocked[of w w'] show ?thesis by auto
  next
    case False
    with W b have "pcs \<sigma> u = Blocked w'" by simp
    with inv show ?thesis by (simp add: writers_only_def)
  qed
qed

lemma writers_only_step:
  assumes inv: "writers_only \<sigma>" and st: "step c \<sigma> = Some \<sigma>'" and ns: "\<not> is_switch c"
  shows "writers_only \<sigma>'"
proof (cases c)
  case (Start_read t)
  from inv have p: "priority (rw \<sigma>) = WRITERS" by (simp add: writers_only_def)
  with st Start_read
  have w: "wait t (In_start_read WRITERS) (\<sigma>\<lparr>rw := start_read_enter (rw \<sigma>)\<rparr>) = Some \<sigma>'"
    by (auto split: if_splits)
  have "writers_only (\<sigma>\<lparr>rw := start_read_enter (rw \<sigma>)\<rparr>)"
    using inv by (simp add: writers_only_def start_read_enter_def)
  then show ?thesis by (rule writers_only_wait[OF _ w]) (simp add: writers_site_def)
next
  case (Start_write t)
  from inv have p: "priority (rw \<sigma>) = WRITERS" by (simp add: writers_only_def)
  with st Start_write
  have w: "wait t (In_start_write WRITERS) (\<sigma>\<lparr>rw := start_write_enter (rw \<sigma>)\<rparr>) = Some \<sigma>'"
    by (auto split: if_splits)
  have "writers_only (\<sigma>\<lparr>rw := start_write_enter (rw \<sigma>)\<rparr>)"
    using inv by (simp add: writers_only_def start_write_enter_def)
  then show ?thesis by (rule writers_only_wait[OF _ w]) (simp add: writers_site_def)
next
  case (Recheck t)
  with st obtain w where b: "pcs \<sigma> t = Blocked w" and w: "wait t w \<sigma> = Some \<sigma>'"
    by (auto split: pc.splits)
  from inv b have "writers_site w"
    by (simp add: writers_only_def)
  with inv w show ?thesis by (rule writers_only_wait)
next
  case (End_read t)
  with st inv show ?thesis
    by (auto simp: writers_only_def end_read_def Let_def split: if_splits)
next
  case (End_write t)
  with st inv show ?thesis
    by (auto simp: writers_only_def end_write_def Let_def split: if_splits)
next
  case (Set_priority p)
  with ns show ?thesis by simp
next
  case (Print_status prefix)
  with st inv show ?thesis by (simp add: print_status_def)
qed

lemma writers_only_run:
  "writers_only \<sigma> \<Longrightarrow> \<forall>c \<in> set cs. \<not> is_switch c \<Longrightarrow> run cs \<sigma> = Some \<sigma>' \<Longrightarrow>
     writers_only \<sigma>'"
proof (induction cs arbitrary: \<sigma>)
  case Nil
  then show ?case by simp
next
  case (Cons c cs)
  from Cons.prems(3) obtain \<sigma>1 where s1: "step c \<sigma> = Some \<sigma>1" and r: "run cs \<sigma>1 = Some \<sigma>'"
    by (auto split: option.splits)
  from Cons.prems(2) have "\<not> is_switch c" by simp
  with Cons.prems(1) s1 have "writers_only \<sigma>1" by (rule writers_only_step)
  with Cons r show ?case by simp
qed

lemma writers_only_new: "writers_only (system_new WRITERS)"
  by (simp add: writers_only_def system_new_def ReadersWriters_new_def)

text \<open>An admission of a reader is a step of that reader.\<close>

lemma reader_admitted_by:
  assumes st: "step c \<sigma> = Some \<sigma>'" and before: "pcs \<sigma> t \<noteq> Reading"
    and after: "pcs \<sigma>' t = Reading"
  shows "c = Start_read t \<or> (\<exists>b. c = Recheck t \<and> pcs \<sigma> t = Blocked (In_start_read b))"
proof (cases c)
  case (Start_read u)
  with st have w: "wait u (In_start_read (priority (rw \<sigma>))) (\<sigma>\<lparr>rw := start_read_enter (rw \<sigma>)\<rparr>) = Some \<sigma>'"
    by (auto split: if_splits)
  from wait_moves_one[OF w] before after have "u = t" by auto
  with Start_read show ?thesis by simp
next
  case (Start_write u)
  with st have w: "wait u (In_start_write (priority (rw \<sigma>))) (\<sigma>\<lparr>rw := start_write_enter (rw \<sigma>)\<rparr>) = Some \<sigma>'"
    by (auto split: if_splits)
  from wait_moves_one[OF w] before after show ?thesis by (cases "u = t") auto
next
  case (Recheck u)
  with st obtain w where b: "pcs \<sigma> u = Blocked w" and w: "wait u w \<sigma> = Some \<sigma>'"
    by (auto split: pc.splits)
  from wait_moves_one[OF w] before after have ut: "u = t" by auto
  with wait_moves_one[OF w] after have "holding w = Reading" by auto
  then obtain b' where "w = In_start_read b'" by (cases w) auto
  with Recheck ut b show ?thesis by simp
next
  case (End_read u)
  with st before after show ?thesis by (auto split: if_splits)
next
  case (End_write u)
  with st before after show ?thesis by (auto split: if_splits)
next
  case (Set_priority p)
  with st before after show ?thesis by auto
next
  case (Print_status prefix)
  with st before after show ?thesis by (auto simp: print_status_def)
qed

lemma writers_policy_without_switch:
  assumes r: "run cs (system_new WRITERS) = Some \<sigma>"
    and ns: "\<forall>c \<in> set cs. \<not> is_switch c"
    and st: "step c \<sigma> = Some \<sigma>'"
    and before: "pcs \<sigma> t \<noteq> Reading" and after: "pcs \<sigma>' t = Reading"
  shows "priority (rw \<sigma>) = WRITERS \<and> \<not> writer_active (rw \<sigma>) \<and> waiting_writers (rw \<sigma>) = 0
       \<and> (\<forall>u b. pcs \<sigma> u \<noteq> Blocked (In_start_write b))"
proof -
  from writers_only_run[OF writers_only_new ns r] have wo: "writers_only \<sigma>" .
  then have p: "priority (rw \<sigma>) = WRITERS" by (simp add: writers_only_def)
  from reader_admitted_by[OF st before after] wo p
  have c: "c = Start_read t \<and> priority (rw \<sigma>) = WRITERS
       \<or> c = Recheck t \<and> pcs \<sigma> t = Blocked (In_start_read WRITERS)"
    by (auto simp: writers_only_def writers_site_def)
  from writers_branch_admission[OF r c st] after
  have a: "\<not> writer_active (rw \<sigma>)" "waiting_writers (rw \<sigma>) = 0"
    "\<forall>u. pcs \<sigma> u \<noteq> Blocked (In_start_write READERS)
        \<and> pcs \<sigma> u \<noteq> Blocked (In_start_write WRITERS)"
    by simp_all
  have "pcs \<sigma> u \<noteq> Blocked (In_start_write b)" for u b
  proof
    assume b: "pcs \<sigma> u = Blocked (In_start_write b)"
    with wo have "b = WRITERS" by (auto simp: writers_only_def writers_site_def)
    with b a(3) show False by simp
  qed
  with p a show ?thesis by simp
qed

lemma writers_policy_without_switch_example:
  "\<exists>\<sigma> \<sigma>'. run [Start_write 0, Start_write 1, Start_read 2, End_write 0, Recheck 1,
             End_write 1] (system_new WRITERS) = Some \<sigma>
        \<and> step (Recheck 2) \<sigma> = Some \<sigma>' \<and> pcs \<sigma>' 2 = Reading
        \<and> \<not> writer_active (rw \<sigma>) \<and> waiting_writers (rw \<sigma>) = 0"
proof -
  let ?late = "[Start_write 0, Start_write 1, Start_read 2, End_write 0, Recheck 1, End_write 1]"
  obtain \<sigma> where r: "run ?late (system_new WRITERS) = Some \<sigma>"
    and v: "pcs \<sigma> 2 = Blocked (In_start_read WRITERS)" "\<not> writer_active (rw \<sigma>)"
      "waiting_writers (rw \<sigma>) = 0"
    by (simp add: run_eval)
  from v obtain \<sigma>' where s: "step (Recheck 2) \<sigma> = Some \<sigma>'" and a: "pcs \<sigma>' 2 = Reading"
    by (simp add: wait_def start_read_leave_def)
  from writers_policy_without_switch[OF r _ s _ a] v r s a show ?thesis by auto
qed

text \<open>
  C5 fails on the code when the policy is switched under a sleeping reader. Under READERS
  a writer holds the resource, reader 1 sleeps in the READERS branch of \<open>start_read\<close> and
  writer 2 sleeps counted in \<open>waiting_writers\<close>; the policy is switched to WRITERS, which
  wakes everybody; the writer leaves. Reader 1 then tests the lambda of the READERS
  branch, the one it has slept in, finds no writer active and is admitted: under
  WRITERS, with \<open>waiting_writers\<close> at 1 and writer 2 still asleep. The WRITERS branch of
  the same method would have kept it waiting.
\<close>

theorem stale_reader_admitted:
  "pc_after [Start_write 0, Start_read 1, Start_write 2, Set_priority WRITERS, End_write 0,
       Recheck 1] (system_new READERS) 1 = Some Reading
   \<and> pc_after [Start_write 0, Start_read 1, Start_write 2, Set_priority WRITERS, End_write 0,
       Recheck 1] (system_new READERS) 2 = Some (Blocked (In_start_write READERS))
   \<and> rw_after [Start_write 0, Start_read 1, Start_write 2, Set_priority WRITERS, End_write 0]
       (system_new READERS)
     = Some \<lparr>active_readers = 0, waiting_readers = 1, active_writers = 0, waiting_writers = 1,
             priority = WRITERS, writer_active = False, request_queue = []\<rparr>
   \<and> \<not> wait_pred (In_start_read WRITERS)
       \<lparr>active_readers = 0, waiting_readers = 1, active_writers = 0, waiting_writers = 1,
        priority = WRITERS, writer_active = False, request_queue = []\<rparr>"
  by (simp add: run_eval pc_after_def rw_after_def)

end
